theory Spec2Isabelle
  imports Main "HOL-Library.While_Combinator"
begin

text \<open>
  Identity reconciliation: the ContactService behind \<open>POST /identify\<close>. The model follows
  the service whose \<open>identify\<close> is split into private methods (findMatchingContacts,
  resolvePrimaryContact with findAllPrimaryContactIds, fetchPrimaryContacts,
  handleOrphanedSecondaries and mergePrimaryContacts, getAllRelatedContacts,
  shouldCreateSecondaryContact, createSecondaryContact, buildResponseFromContacts), which is
  the version with orphan recovery that the unit tests exercise. The sources also keep
  earlier drafts of \<open>identify\<close> (getPrimaryContact followed by a merge of the matched
  primaries, and a view built through \<open>Set\<close>); those drafts throw where a matched secondary
  has no primary, and are not the subject of the theorems below. The Prisma client is
  modelled as a table of rows; failures of the storage itself are outside the model.
\<close>

section \<open>Data model\<close>

text \<open>
  The Contact row of the service (fields as in the test fixtures). The field \<open>id\<close> of the
  source is called \<open>cid\<close> here, because \<open>id\<close> is the identity function of HOL. Timestamps
  are the milliseconds that \<open>Date.getTime()\<close> returns.
\<close>

datatype LinkPrecedence = primary | secondary

record Contact =
  cid :: int
  phoneNumber :: "string option"
  email :: "string option"
  linkedId :: "int option"
  linkPrecedence :: LinkPrecedence
  createdAt :: int
  updatedAt :: int
  deletedAt :: "int option"

text \<open>The body of an IdentifyResponse (the object under its key \<open>contact\<close>).\<close>

record IdentifyResponse =
  primaryContactId :: int
  emails :: "string list"
  phoneNumbers :: "string list"
  secondaryContactIds :: "int list"

text \<open>
  What the service can throw: the explicit \<open>Error\<close> of buildResponseFromContacts, the
  TypeError of reading a property of \<open>undefined\<close> (the first element of an empty array), and
  the rejection of \<open>update\<close> for a row that does not exist.
\<close>

datatype error = EmptyContactsError | TypeError | RecordNotFound

datatype http_response = Status200 IdentifyResponse | Status400 | Status500

section \<open>JavaScript truthiness\<close>

text \<open>A string is truthy when it is neither null nor empty, a number when neither null nor 0.\<close>

fun truthy_str :: "string option \<Rightarrow> bool" where
  "truthy_str None = False"
| "truthy_str (Some s) = (s \<noteq> [])"

fun truthy_num :: "int option \<Rightarrow> bool" where
  "truthy_num None = False"
| "truthy_num (Some n) = (n \<noteq> 0)"

section \<open>The storage collaborator\<close>

text \<open>
  The table is the list of its rows in the order in which the storage scans them; a query
  without \<open>orderBy\<close> returns the selected rows in that order, and \<open>orderBy createdAt asc\<close> sorts
  them by \<open>createdAt\<close>, rows of equal \<open>createdAt\<close> staying in scan order. The source sorts arrays
  with \<open>Array.prototype.sort\<close>, which is stable; both are \<open>sort_key createdAt\<close>. The database
  is PostgreSQL (README): a created row is scanned last, and \<open>update\<close> and \<open>updateMany\<close> store
  a new version of each row they write, which the scan meets after the rows that were not
  written.
\<close>

datatype where_cond = EmailIs string | PhoneNumberIs string

fun cond_holds :: "Contact \<Rightarrow> where_cond \<Rightarrow> bool" where
  "cond_holds c (EmailIs e) = (email c = Some e)"
| "cond_holds c (PhoneNumberIs p) = (phoneNumber c = Some p)"

text \<open>\<open>findMany\<close> with \<open>where: { OR: conds }\<close>; an empty \<open>OR\<close> selects no row.\<close>

definition findMany_OR :: "Contact list \<Rightarrow> where_cond list \<Rightarrow> Contact list" where
  "findMany_OR rows conds = filter (\<lambda>c. list_ex (cond_holds c) conds) rows"

definition findUnique :: "Contact list \<Rightarrow> int \<Rightarrow> Contact option" where
  "findUnique rows i = find (\<lambda>c. cid c = i) rows"

text \<open>The autoincrement key: an id above every id of the table, 1 for the empty table.\<close>

definition next_id :: "Contact list \<Rightarrow> int" where
  "next_id rows = fold max (map cid rows) 0 + 1"

text \<open>
  \<open>create\<close>: the new row gets the next id and the time of the call, and is returned.
\<close>

definition create_contact ::
  "Contact list \<Rightarrow> int \<Rightarrow> string option \<Rightarrow> string option \<Rightarrow> int option \<Rightarrow> LinkPrecedence
     \<Rightarrow> Contact list \<times> Contact" where
  "create_contact rows now em ph lid prec =
     (let c = \<lparr>cid = next_id rows, phoneNumber = ph, email = em, linkedId = lid,
               linkPrecedence = prec, createdAt = now, updatedAt = now, deletedAt = None\<rparr>
      in (rows @ [c], c))"

text \<open>
  Modelled from the spec: the Prisma schema is not part of the sources; \<open>updatedAt\<close> is the
  "last mutation timestamp", so a write sets it to the time of the call.
\<close>

definition set_link :: "int \<Rightarrow> LinkPrecedence \<Rightarrow> int option \<Rightarrow> Contact \<Rightarrow> Contact" where
  "set_link now prec lid c = c\<lparr>linkedId := lid, linkPrecedence := prec, updatedAt := now\<rparr>"

text \<open>
  A write to the selected rows: the rows that are not selected keep their place in the
  scan, the written rows follow them, in the order in which they were scanned before.
\<close>

definition write_rows ::
  "Contact list \<Rightarrow> (Contact \<Rightarrow> bool) \<Rightarrow> (Contact \<Rightarrow> Contact) \<Rightarrow> Contact list" where
  "write_rows rows selected w = filter (\<lambda>r. \<not> selected r) rows @ map w (filter selected rows)"

text \<open>\<open>update\<close> of the row with the given id; it returns the row as written.\<close>

definition update_contact ::
  "Contact list \<Rightarrow> int \<Rightarrow> int \<Rightarrow> LinkPrecedence \<Rightarrow> int option \<Rightarrow> error + Contact list \<times> Contact" where
  "update_contact rows now i prec lid =
     (case findUnique rows i of
        None \<Rightarrow> Inl RecordNotFound
      | Some c \<Rightarrow>
          Inr (write_rows rows (\<lambda>r. cid r = i) (set_link now prec lid),
               set_link now prec lid c))"

section \<open>ContactService\<close>

subsection \<open>findMatchingContacts\<close>

fun email_cond :: "string option \<Rightarrow> where_cond list" where
  "email_cond None = []"
| "email_cond (Some e) = (if e = [] then [] else [EmailIs e])"

fun phone_cond :: "string option \<Rightarrow> where_cond list" where
  "phone_cond None = []"
| "phone_cond (Some p) = (if p = [] then [] else [PhoneNumberIs p])"

definition findMatchingContacts ::
  "Contact list \<Rightarrow> string option \<Rightarrow> string option \<Rightarrow> Contact list" where
  "findMatchingContacts rows em ph = findMany_OR rows (email_cond em @ phone_cond ph)"

subsection \<open>buildResponseFromContacts\<close>

text \<open>\<open>if (v && !acc.includes(v)) acc.push(v)\<close>\<close>

fun push_unique :: "string option \<Rightarrow> string list \<Rightarrow> string list" where
  "push_unique None acc = acc"
| "push_unique (Some v) acc = (if v \<noteq> [] \<and> v \<notin> set acc then acc @ [v] else acc)"

text \<open>
  The contact the view is built around: the first one marked primary, otherwise the first
  of the contacts sorted by \<open>createdAt\<close>.
\<close>

definition pickPrimary :: "Contact list \<Rightarrow> Contact option" where
  "pickPrimary contacts =
     (case find (\<lambda>c. linkPrecedence c = primary) contacts of
        Some c \<Rightarrow> Some c
      | None \<Rightarrow> (case sort_key createdAt contacts of [] \<Rightarrow> None | c # _ \<Rightarrow> Some c))"

definition buildResponseFromContacts :: "Contact list \<Rightarrow> error + IdentifyResponse" where
  "buildResponseFromContacts contacts =
     (if contacts = [] then Inl EmptyContactsError
      else case pickPrimary contacts of
        None \<Rightarrow> Inl TypeError
      | Some primaryContact \<Rightarrow>
          (let secondaryContacts = filter (\<lambda>c. cid c \<noteq> cid primaryContact) contacts;
               es = fold (\<lambda>c acc. push_unique (email c) acc) secondaryContacts
                      (push_unique (email primaryContact) []);
               ps = fold (\<lambda>c acc. push_unique (phoneNumber c) acc) secondaryContacts
                      (push_unique (phoneNumber primaryContact) [])
           in Inr \<lparr>primaryContactId = cid primaryContact,
                   emails = es,
                   phoneNumbers = ps,
                   secondaryContactIds = filter (\<lambda>i. i \<noteq> cid primaryContact) (map cid contacts)\<rparr>))"

subsection \<open>createNewPrimaryContact, createSecondaryContact, getAllRelatedContacts\<close>

definition createNewPrimaryContact ::
  "Contact list \<Rightarrow> int \<Rightarrow> string option \<Rightarrow> string option
     \<Rightarrow> Contact list \<times> (error + IdentifyResponse)" where
  "createNewPrimaryContact rows now em ph =
     (let (rows', newContact) = create_contact rows now em ph None primary
      in (rows', buildResponseFromContacts [newContact]))"

definition createSecondaryContact ::
  "Contact list \<Rightarrow> int \<Rightarrow> string option \<Rightarrow> string option \<Rightarrow> int \<Rightarrow> Contact list \<times> Contact" where
  "createSecondaryContact rows now em ph primaryContactId' =
     create_contact rows now em ph (Some primaryContactId') secondary"

definition getAllRelatedContacts :: "Contact list \<Rightarrow> int \<Rightarrow> Contact list" where
  "getAllRelatedContacts rows primaryContactId' =
     filter (\<lambda>c. cid c = primaryContactId' \<or> linkedId c = Some primaryContactId') rows"

subsection \<open>shouldCreateSecondaryContact\<close>

definition shouldCreateSecondaryContact ::
  "Contact list \<Rightarrow> string option \<Rightarrow> string option \<Rightarrow> bool" where
  "shouldCreateSecondaryContact allRelatedContacts em ph =
     (let allEmails = filter truthy_str (map email allRelatedContacts);
          allPhones = filter truthy_str (map phoneNumber allRelatedContacts);
          isNewEmail = (truthy_str em \<and> em \<notin> set allEmails);
          isNewPhone = (truthy_str ph \<and> ph \<notin> set allPhones)
      in isNewEmail \<or> isNewPhone)"

subsection \<open>findAllPrimaryContactIds\<close>

text \<open>
  The state of the loop. \<open>contactsToTrace\<close> is the source's array used as a stack: the head
  of the list is the end of the array, where \<open>pop\<close> and \<open>push\<close> work. The two \<open>Set<number>\<close>
  are lists without repetition, in insertion order.
\<close>

record TraceState =
  contactsToTrace :: "Contact list"
  tracedIds :: "int list"
  allPrimaryContactIds :: "int list"

definition set_add :: "int \<Rightarrow> int list \<Rightarrow> int list" where
  "set_add x xs = (if x \<in> set xs then xs else xs @ [x])"

text \<open>One iteration of the \<open>while\<close> loop.\<close>

definition trace_step :: "Contact list \<Rightarrow> TraceState \<Rightarrow> TraceState" where
  "trace_step rows s =
     (case contactsToTrace s of
        [] \<Rightarrow> s
      | contact # rest \<Rightarrow>
          if cid contact \<in> set (tracedIds s) then s\<lparr>contactsToTrace := rest\<rparr>
          else
            (let s1 = s\<lparr>contactsToTrace := rest, tracedIds := set_add (cid contact) (tracedIds s)\<rparr>
             in if linkPrecedence contact = primary
                then s1\<lparr>allPrimaryContactIds := set_add (cid contact) (allPrimaryContactIds s1)\<rparr>
                else if truthy_num (linkedId contact)
                then (case findUnique rows (the (linkedId contact)) of
                        None \<Rightarrow> s1
                      | Some parent \<Rightarrow> s1\<lparr>contactsToTrace := parent # rest\<rparr>)
                else s1))"

definition trace_measure :: "Contact list \<Rightarrow> TraceState \<Rightarrow> nat" where
  "trace_measure rows s =
     card ((cid ` set rows \<union> cid ` set (contactsToTrace s)) - set (tracedIds s))
       + length (contactsToTrace s)"

function trace_loop :: "Contact list \<Rightarrow> TraceState \<Rightarrow> TraceState" where
  "trace_loop rows s =
     (if contactsToTrace s = [] then s else trace_loop rows (trace_step rows s))"
  by pat_completeness auto

definition trace_init :: "Contact list \<Rightarrow> TraceState" where
  "trace_init matchingContacts =
     \<lparr>contactsToTrace = rev matchingContacts, tracedIds = [], allPrimaryContactIds = []\<rparr>"

definition findAllPrimaryContactIds :: "Contact list \<Rightarrow> Contact list \<Rightarrow> int list" where
  "findAllPrimaryContactIds rows matchingContacts =
     allPrimaryContactIds (trace_loop rows (trace_init matchingContacts))"

subsection \<open>fetchPrimaryContacts, handleOrphanedSecondaries, mergePrimaryContacts\<close>

definition fetchPrimaryContacts :: "Contact list \<Rightarrow> int list \<Rightarrow> Contact list" where
  "fetchPrimaryContacts rows primaryContactIds =
     sort_key createdAt (filter (\<lambda>c. cid c \<in> set primaryContactIds) rows)"

definition handleOrphanedSecondaries ::
  "Contact list \<Rightarrow> int \<Rightarrow> Contact list \<Rightarrow> error + Contact list \<times> Contact" where
  "handleOrphanedSecondaries rows now matchingContacts =
     (case sort_key createdAt matchingContacts of
        [] \<Rightarrow> Inl TypeError
      | oldestMatchedContact # _ \<Rightarrow>
          if linkPrecedence oldestMatchedContact \<noteq> primary
          then update_contact rows now (cid oldestMatchedContact) primary None
          else Inr (rows, oldestMatchedContact))"

text \<open>
  \<open>updateMany\<close> over the rows whose id, or whose linkedId, is one of the other primaries.
\<close>

definition mergePrimaryContacts :: "Contact list \<Rightarrow> int \<Rightarrow> Contact list \<Rightarrow> Contact list" where
  "mergePrimaryContacts rows now allPrimaryContacts =
     (let primaryContact = hd allPrimaryContacts;
          otherPrimaryIds = map cid (tl allPrimaryContacts)
      in write_rows rows
           (\<lambda>r. cid r \<in> set otherPrimaryIds
                 \<or> (case linkedId r of None \<Rightarrow> False | Some l \<Rightarrow> l \<in> set otherPrimaryIds))
           (set_link now secondary (Some (cid primaryContact))))"

subsection \<open>resolvePrimaryContact and identify\<close>

definition resolvePrimaryContact ::
  "Contact list \<Rightarrow> int \<Rightarrow> Contact list \<Rightarrow> error + Contact list \<times> Contact" where
  "resolvePrimaryContact rows now matchingContacts =
     (let allPrimaryContactIds' = findAllPrimaryContactIds rows matchingContacts;
          allPrimaryContacts = fetchPrimaryContacts rows allPrimaryContactIds'
      in case allPrimaryContacts of
           [] \<Rightarrow> handleOrphanedSecondaries rows now matchingContacts
         | oldest # others \<Rightarrow>
             Inr (if others \<noteq> [] then mergePrimaryContacts rows now allPrimaryContacts else rows,
                  oldest))"

text \<open>
  identify returns the table as the call leaves it together with the response or the
  error thrown; \<open>now\<close> is the time of the call.
\<close>

definition identify ::
  "Contact list \<Rightarrow> int \<Rightarrow> string option \<Rightarrow> string option
     \<Rightarrow> Contact list \<times> (error + IdentifyResponse)" where
  "identify rows now em ph =
     (let matchingContacts = findMatchingContacts rows em ph
      in if matchingContacts = [] then createNewPrimaryContact rows now em ph
         else case resolvePrimaryContact rows now matchingContacts of
           Inl e \<Rightarrow> (rows, Inl e)
         | Inr (rows1, primaryContact) \<Rightarrow>
             (let allRelatedContacts = getAllRelatedContacts rows1 (cid primaryContact)
              in if shouldCreateSecondaryContact allRelatedContacts em ph
                 then (let (rows2, newSecondary) =
                             createSecondaryContact rows1 now em ph (cid primaryContact)
                       in (rows2, buildResponseFromContacts (allRelatedContacts @ [newSecondary])))
                 else (rows1, buildResponseFromContacts allRelatedContacts)))"

subsection \<open>identifyController\<close>

text \<open>
  The request body's two fields (absent and null are both \<open>None\<close>). The controller answers
  400 when neither is truthy, passes \<open>email ?? null\<close> and the phone number when it is truthy,
  and turns every error of the service into 500.
\<close>

definition identifyController ::
  "Contact list \<Rightarrow> int \<Rightarrow> string option \<Rightarrow> string option \<Rightarrow> Contact list \<times> http_response" where
  "identifyController rows now em ph =
     (if \<not> truthy_str em \<and> \<not> truthy_str ph then (rows, Status400)
      else case identify rows now em (if truthy_str ph then ph else None) of
             (rows', Inr result) \<Rightarrow> (rows', Status200 result)
           | (rows', Inl e) \<Rightarrow> (rows', Status500))"

section \<open>The view fields as the specification words them\<close>

text \<open>
  "Primary's value first (if present), then each distinct remaining value of the other
  contacts in their given order, skipping null/empty and skipping duplicates already
  present": \<open>skip_null_empty\<close> drops the null and empty values, \<open>skip_emitted\<close> keeps a value
  only where it has not been emitted before.
\<close>

fun skip_null_empty :: "string option list \<Rightarrow> string list" where
  "skip_null_empty [] = []"
| "skip_null_empty (None # vs) = skip_null_empty vs"
| "skip_null_empty (Some v # vs) = (if v = [] then skip_null_empty vs else v # skip_null_empty vs)"

fun skip_emitted :: "string list \<Rightarrow> string list \<Rightarrow> string list" where
  "skip_emitted emitted [] = []"
| "skip_emitted emitted (v # vs) =
     (if v \<in> set emitted then skip_emitted emitted vs
      else v # skip_emitted (emitted @ [v]) vs)"

definition spec_view_values :: "string option \<Rightarrow> string option list \<Rightarrow> string list" where
  "spec_view_values primaryValue otherValues =
     skip_emitted [] (skip_null_empty (primaryValue # otherValues))"

section \<open>Reachability and the invariants of the data model\<close>

text \<open>
  The pointer the traversal follows from a contact: a contact that is not primary and has
  a truthy linkedId leads to the row with that id, when there is one.
\<close>

definition parent_of :: "Contact list \<Rightarrow> Contact \<Rightarrow> Contact option" where
  "parent_of rows c =
     (if linkPrecedence c \<noteq> primary \<and> truthy_num (linkedId c)
      then findUnique rows (the (linkedId c)) else None)"

inductive reaches :: "Contact list \<Rightarrow> Contact \<Rightarrow> Contact \<Rightarrow> bool" for rows :: "Contact list" where
  reaches_here: "reaches rows c c"
| reaches_up: "parent_of rows c = Some d \<Longrightarrow> reaches rows d e \<Longrightarrow> reaches rows c e"

text \<open>The primary contacts reachable from the matched contacts.\<close>

definition reachable_primaries :: "Contact list \<Rightarrow> Contact list \<Rightarrow> Contact set" where
  "reachable_primaries rows matchingContacts =
     {p. linkPrecedence p = primary \<and> (\<exists>m\<in>set matchingContacts. reaches rows m p)}"

text \<open>The key of the table is unique.\<close>

definition unique_ids :: "Contact list \<Rightarrow> bool" where
  "unique_ids rows = distinct (map cid rows)"

text \<open>Invariant 1: a primary contact never has linkedId set.\<close>

definition inv_primary_unlinked :: "Contact list \<Rightarrow> bool" where
  "inv_primary_unlinked rows =
     list_all (\<lambda>c. linkPrecedence c = primary \<longrightarrow> linkedId c = None) rows"

text \<open>Invariant 2: a secondary contact has linkedId set, and it is the id of a primary contact.\<close>

definition inv_secondary_linked :: "Contact list \<Rightarrow> bool" where
  "inv_secondary_linked rows =
     list_all (\<lambda>c. linkPrecedence c = secondary \<longrightarrow>
        list_ex (\<lambda>p. linkedId c = Some (cid p) \<and> linkPrecedence p = primary) rows) rows"

text \<open>
  The invariant of the traversal's loop, for the matched contacts \<open>M\<close> the loop starts
  from: the stack holds rows reachable from \<open>M\<close>; a traced row has its id among the
  primaries when it is primary, and its parent traced or on the stack; every collected id
  is the id of a primary row reachable from \<open>M\<close>; every contact of \<open>M\<close> is traced or on the
  stack.
\<close>

definition trace_inv :: "Contact list \<Rightarrow> Contact list \<Rightarrow> TraceState \<Rightarrow> bool" where
  "trace_inv rows M s =
     (set (contactsToTrace s) \<subseteq> set rows
      \<and> (\<forall>c\<in>set rows. cid c \<in> set (tracedIds s) \<longrightarrow>
            (linkPrecedence c = primary \<longrightarrow> cid c \<in> set (allPrimaryContactIds s))
            \<and> (\<forall>d. parent_of rows c = Some d \<longrightarrow>
                  cid d \<in> set (tracedIds s) \<or> d \<in> set (contactsToTrace s)))
      \<and> (\<forall>i\<in>set (allPrimaryContactIds s).
            \<exists>c\<in>set rows. cid c = i \<and> linkPrecedence c = primary \<and> (\<exists>m\<in>set M. reaches rows m c))
      \<and> (\<forall>c\<in>set (contactsToTrace s). \<exists>m\<in>set M. reaches rows m c)
      \<and> (\<forall>m\<in>set M. cid m \<in> set (tracedIds s) \<or> m \<in> set (contactsToTrace s)))"

text \<open>The row that createSecondaryContact writes into the table \<open>rows1\<close>.\<close>

definition new_secondary :: "Contact list \<Rightarrow> int \<Rightarrow> string option \<Rightarrow> string option \<Rightarrow> int \<Rightarrow> Contact" where
  "new_secondary rows1 now em ph i =
     \<lparr>cid = next_id rows1, phoneNumber = ph, email = em, linkedId = Some i,
      linkPrecedence = secondary, createdAt = now, updatedAt = now, deletedAt = None\<rparr>"

text \<open>
  A table is settled for the primary contact \<open>p\<close> and the matched contacts \<open>M\<close> when every
  matched contact is \<open>p\<close> itself or a secondary contact linked to \<open>p\<close> (or to the id 0, which
  the traversal does not follow), and \<open>p\<close> is matched or is the followed parent of a match:
  resolution then finds \<open>p\<close> alone and writes nothing.
\<close>

definition settled :: "Contact list \<Rightarrow> Contact \<Rightarrow> Contact list \<Rightarrow> bool" where
  "settled rows p M =
     (p \<in> set rows \<and> linkPrecedence p = primary \<and> set M \<subseteq> set rows
      \<and> (\<forall>m\<in>set M. m = p
            \<or> (linkPrecedence m = secondary
                \<and> (linkedId m = Some (cid p) \<or> linkedId m = Some 0)))
      \<and> (p \<in> set M
          \<or> (\<exists>m\<in>set M. linkPrecedence m = secondary \<and> linkedId m = Some (cid p) \<and> cid p \<noteq> 0)))"

section \<open>Example data\<close>

text \<open>A contact with the given fields, in the manner of the fixtures' createMockContact.\<close>

definition mkContact ::
  "int \<Rightarrow> string option \<Rightarrow> string option \<Rightarrow> int option \<Rightarrow> LinkPrecedence \<Rightarrow> int \<Rightarrow> Contact" where
  "mkContact i em ph lid prec t =
     \<lparr>cid = i, phoneNumber = ph, email = em, linkedId = lid,
      linkPrecedence = prec, createdAt = t, updatedAt = t, deletedAt = None\<rparr>"

text \<open>A table whose linkedId pointers form a cycle (1 and 2) and dangle (3 points at 9).\<close>

definition cyclic_store :: "Contact list" where
  "cyclic_store =
     [mkContact 1 (Some ''a@x.com'') None (Some 2) secondary 1,
      mkContact 2 (Some ''a@x.com'') None (Some 1) secondary 2,
      mkContact 3 (Some ''a@x.com'') None (Some 9) secondary 3]"

text \<open>
  Two primary contacts created at the same time: once with the rows scanned in the order
  of their ids, once with contact 2 scanned before contact 1.
\<close>

definition tie_store_by_id :: "Contact list" where
  "tie_store_by_id =
     [mkContact 1 (Some ''b@x.com'') (Some ''222'') None primary 5,
      mkContact 2 (Some ''a@x.com'') (Some ''111'') None primary 5]"

definition tie_store :: "Contact list" where
  "tie_store =
     [mkContact 2 (Some ''a@x.com'') (Some ''111'') None primary 5,
      mkContact 1 (Some ''b@x.com'') (Some ''222'') None primary 5]"

text \<open>The merge scenario: two independent primary contacts, contact 1 the older.\<close>

definition merge_store :: "Contact list" where
  "merge_store =
     [mkContact 1 (Some ''a@x.com'') (Some ''111'') None primary 1,
      mkContact 2 (Some ''b@x.com'') (Some ''222'') None primary 2]"

text \<open>
  A table that breaks invariant 1: contact 1 is marked primary and has linkedId 2.
  Contacts 2 and 3 are independent primary contacts.
\<close>

definition linked_primary_store :: "Contact list" where
  "linked_primary_store =
     [mkContact 1 (Some ''x@x.com'') (Some ''000'') (Some 2) primary 1,
      mkContact 2 (Some ''a@x.com'') (Some ''111'') None primary 2,
      mkContact 3 (Some ''b@x.com'') (Some ''222'') None primary 3]"

text \<open>
  The orphans of the unit test: two secondary contacts whose linkedId 999 has no row.
\<close>

definition orphan_store :: "Contact list" where
  "orphan_store =
     [mkContact 100 (Some ''test@example.com'') (Some ''555-9999'') (Some 999) secondary 1,
      mkContact 101 (Some ''test@example.com'') (Some ''555-9999'') (Some 999) secondary 2]"

text \<open>The cluster of the fixtures (mockContacts): a primary contact and two secondaries.\<close>

definition mock_contacts :: "Contact list" where
  "mock_contacts =
     [mkContact 1 (Some ''emmett.brown@flux.com'') (Some ''555-0001'') None primary 1,
      mkContact 2 (Some ''doc.brown@timemachine.com'') (Some ''555-0001'') (Some 1) secondary 2,
      mkContact 3 (Some ''emmett.brown@flux.com'') (Some ''555-0002'') (Some 1) secondary 3]"

text \<open>
  Two identities to merge: the primary contacts 1 and 2, contact 3 linked to contact 2 and
  contact 4 linked to contact 1.
\<close>

definition merge_cluster_store :: "Contact list" where
  "merge_cluster_store =
     [mkContact 1 (Some ''a@x.com'') (Some ''111'') None primary 1,
      mkContact 2 (Some ''b@x.com'') (Some ''222'') None primary 2,
      mkContact 3 (Some ''c@x.com'') (Some ''222'') (Some 2) secondary 3,
      mkContact 4 (Some ''a@x.com'') (Some ''444'') (Some 1) secondary 4]"

text \<open>
  A table that breaks invariant 2: contact 4 is linked to contact 3, which is secondary
  (linked to the primary contact 2).
\<close>

definition chain_store :: "Contact list" where
  "chain_store =
     [mkContact 1 (Some ''a@x.com'') (Some ''111'') None primary 1,
      mkContact 2 (Some ''b@x.com'') (Some ''222'') None primary 2,
      mkContact 3 (Some ''c@x.com'') (Some ''333'') (Some 2) secondary 3,
      mkContact 4 (Some ''d@x.com'') (Some ''444'') (Some 3) secondary 4]"

text \<open>
  A table that breaks invariant 1 beside an orphan: contact 1 is marked primary and has
  linkedId 2; contact 2 is secondary and its linkedId 999 has no row.
\<close>

definition linked_orphan_store :: "Contact list" where
  "linked_orphan_store =
     [mkContact 1 (Some ''z@x.com'') (Some ''000'') (Some 2) primary 1,
      mkContact 2 (Some ''o@x.com'') (Some ''555'') (Some 999) secondary 2]"

text \<open>
  The input of the unit test on the order of the view: the secondary contact is given
  before the primary contact.
\<close>

definition unsorted_contacts :: "Contact list" where
  "unsorted_contacts =
     [mkContact 2 (Some ''secondary@email.com'') (Some ''222'') (Some 1) secondary 2,
      mkContact 1 (Some ''primary@email.com'') (Some ''111'') None primary 1]"

text \<open>A cluster whose primary contact has the empty string as email.\<close>

definition empty_email_contacts :: "Contact list" where
  "empty_email_contacts =
     [mkContact 1 (Some []) (Some ''111'') None primary 1,
      mkContact 2 (Some ''b@x.com'') (Some ''111'') (Some 1) secondary 2]"

section \<open>Termination of the traversal\<close>

lemma trace_step_measure:
  assumes nonempty: "contactsToTrace s \<noteq> []"
  shows "trace_measure rows (trace_step rows s) < trace_measure rows s"
proof -
  obtain contact rest where wl: "contactsToTrace s = contact # rest"
    using nonempty by (cases "contactsToTrace s") auto
  let ?U = "cid ` set rows \<union> cid ` set (contact # rest)"
  have fin: "finite (?U - set (tracedIds s))" by simp
  show ?thesis
  proof (cases "cid contact \<in> set (tracedIds s)")
    case True
    have "card ((cid ` set rows \<union> cid ` set rest) - set (tracedIds s))
            \<le> card (?U - set (tracedIds s))"
      by (rule card_mono[OF fin]) auto
    then show ?thesis using wl True by (simp add: trace_step_def trace_measure_def)
  next
    case False
    let ?T = "insert (cid contact) (set (tracedIds s))"
    have in_old: "cid contact \<in> ?U - set (tracedIds s)" using False by simp
    have drop: "card ((cid ` set rows \<union> cid ` set rest) - ?T) < card (?U - set (tracedIds s))"
      by (rule psubset_card_mono[OF fin]) (use in_old in auto)
    have push: "card ((cid ` set rows \<union> cid ` set (p # rest)) - ?T) < card (?U - set (tracedIds s))"
      if "findUnique rows i = Some p" for p i
    proof -
      have "p \<in> set rows"
        using that by (auto simp: findUnique_def find_Some_iff)
      then show ?thesis
        by (intro psubset_card_mono[OF fin]) (use in_old in auto)
    qed
    show ?thesis
      using wl False drop push
      by (auto simp: trace_step_def trace_measure_def set_add_def Let_def
               split: option.splits)
  qed
qed

termination trace_loop
  by (relation "measure (\<lambda>(rows, s). trace_measure rows s)") (auto simp: trace_step_measure)

section \<open>The view builder\<close>

lemma fold_push_unique:
  "fold (\<lambda>c a. push_unique (f c) a) cs acc = acc @ skip_emitted acc (skip_null_empty (map f cs))"
proof (induction cs arbitrary: acc)
  case Nil
  then show ?case by simp
next
  case (Cons c cs)
  show ?case
  proof (cases "f c")
    case None
    then show ?thesis using Cons by simp
  next
    case (Some v)
    then show ?thesis using Cons by simp
  qed
qed

lemma skip_emitted_set_distinct:
  "set (skip_emitted emitted vs) = set vs - set emitted \<and> distinct (skip_emitted emitted vs)"
  by (induction vs arbitrary: emitted) auto

lemma view_values_fold:
  "fold (\<lambda>c a. push_unique (f c) a) cs (push_unique (f p) []) = spec_view_values (f p) (map f cs)"
proof (cases "f p")
  case None
  then show ?thesis using fold_push_unique[of f cs "[]"] by (simp add: spec_view_values_def)
next
  case (Some v)
  show ?thesis
  proof (cases "v = []")
    case True
    then show ?thesis using Some fold_push_unique[of f cs "[]"] by (simp add: spec_view_values_def)
  next
    case False
    then show ?thesis using Some fold_push_unique[of f cs "[v]"] by (simp add: spec_view_values_def)
  qed
qed

lemma view_values_head:
  "truthy_str v \<Longrightarrow> \<exists>rest. spec_view_values v vs = the v # rest"
  by (cases v) (auto simp: spec_view_values_def)

lemma view_values_distinct: "distinct (spec_view_values v vs)"
  by (simp add: spec_view_values_def skip_emitted_set_distinct)

lemma pickPrimary_nonempty:
  assumes "contacts \<noteq> []"
  shows "\<exists>p. pickPrimary contacts = Some p \<and> p \<in> set contacts"
proof (cases "find (\<lambda>c. linkPrecedence c = primary) contacts")
  case None
  have "sort_key createdAt contacts \<noteq> []"
    using assms by (metis length_0_conv length_sort)
  then obtain c cs where s: "sort_key createdAt contacts = c # cs"
    by (cases "sort_key createdAt contacts") auto
  then have "c \<in> set contacts" by (metis list.set_intros(1) set_sort)
  then show ?thesis using None s by (simp add: pickPrimary_def)
next
  case (Some c)
  then have "c \<in> set contacts" by (auto simp: find_Some_iff)
  then show ?thesis using Some by (simp add: pickPrimary_def)
qed

lemma build_with_primary:
  assumes "contacts \<noteq> []" "pickPrimary contacts = Some p"
  shows "buildResponseFromContacts contacts =
     Inr \<lparr>primaryContactId = cid p,
          emails = spec_view_values (email p) (map email (filter (\<lambda>c. cid c \<noteq> cid p) contacts)),
          phoneNumbers =
            spec_view_values (phoneNumber p) (map phoneNumber (filter (\<lambda>c. cid c \<noteq> cid p) contacts)),
          secondaryContactIds = map cid (filter (\<lambda>c. cid c \<noteq> cid p) contacts)\<rparr>"
  using assms
  by (simp add: buildResponseFromContacts_def Let_def view_values_fold filter_map comp_def)

lemma find_first:
  assumes "xs = pre @ c # post" "\<forall>x\<in>set pre. \<not> P x" "P c"
  shows "find P xs = Some c"
  using assms by (induction pre arbitrary: xs) auto

lemma sort_key_hd_min:
  assumes "xs \<noteq> []"
  shows "hd (sort_key f xs) \<in> set xs \<and> (\<forall>x\<in>set xs. f (hd (sort_key f xs)) \<le> f x)"
proof -
  have "sort_key f xs \<noteq> []" using assms by (metis length_0_conv length_sort)
  then obtain c cs where s: "sort_key f xs = c # cs" by (cases "sort_key f xs") auto
  have "sorted (map f (c # cs))" using sorted_sort_key[of f xs] s by simp
  then have "\<forall>x\<in>set (c # cs). f c \<le> f x" by auto
  moreover have "set (c # cs) = set xs" using s by (metis set_sort)
  ultimately show ?thesis using s by auto
qed

lemma find_Some_split:
  "find P xs = Some c \<Longrightarrow> P c \<and> (\<exists>pre post. xs = pre @ c # post \<and> (\<forall>x\<in>set pre. \<not> P x))"
proof (induction xs)
  case Nil
  then show ?case by simp
next
  case (Cons a xs)
  show ?case
  proof (cases "P a")
    case True
    then have c: "c = a" using Cons.prems by simp
    then have "a # xs = [] @ c # xs \<and> (\<forall>x\<in>set []. \<not> P x)" by simp
    then show ?thesis using True c by blast
  next
    case False
    then have "find P xs = Some c" using Cons.prems by simp
    then obtain pre post where IH: "P c" "xs = pre @ c # post" "\<forall>x\<in>set pre. \<not> P x"
      using Cons.IH by blast
    then have "a # xs = (a # pre) @ c # post \<and> (\<forall>x\<in>set (a # pre). \<not> P x)"
      using False by simp
    then show ?thesis using IH(1) by blast
  qed
qed

lemma pickPrimary_cases:
  assumes "contacts \<noteq> []"
  shows "\<exists>p. pickPrimary contacts = Some p \<and> p \<in> set contacts
     \<and> ((linkPrecedence p = primary
           \<and> (\<exists>pre post. contacts = pre @ p # post \<and> (\<forall>x\<in>set pre. linkPrecedence x \<noteq> primary)))
         \<or> ((\<forall>x\<in>set contacts. linkPrecedence x \<noteq> primary)
             \<and> p = hd (sort_key createdAt contacts)
             \<and> (\<forall>x\<in>set contacts. createdAt p \<le> createdAt x)))"
proof (cases "find (\<lambda>c. linkPrecedence c = primary) contacts")
  case None
  then have none: "\<forall>x\<in>set contacts. linkPrecedence x \<noteq> primary" by (simp add: find_None_iff)
  have "sort_key createdAt contacts \<noteq> []"
    using assms by (metis length_0_conv length_sort)
  then obtain c cs where s: "sort_key createdAt contacts = c # cs"
    by (cases "sort_key createdAt contacts") auto
  have pick: "pickPrimary contacts = Some (hd (sort_key createdAt contacts))"
    using None s by (simp add: pickPrimary_def)
  show ?thesis using pick none sort_key_hd_min[OF assms, of createdAt] by blast
next
  case (Some c)
  have pick: "pickPrimary contacts = Some c" using Some by (simp add: pickPrimary_def)
  obtain pre post where c: "linkPrecedence c = primary" "contacts = pre @ c # post"
    "\<forall>x\<in>set pre. linkPrecedence x \<noteq> primary"
    using find_Some_split[OF Some] by blast
  have "c \<in> set contacts" using c(2) by (metis in_set_conv_decomp)
  then show ?thesis using pick c by blast
qed

text \<open>
  C7 as the claim states it fails for the empty string: the primary contact's email is
  \<open>""\<close>, which is not null, and the view's emails begin with the email of the secondary
  contact.
\<close>

theorem C7_empty_email_counterexample:
  "linkPrecedence (hd empty_email_contacts) = primary
   \<and> email (hd empty_email_contacts) = Some []
   \<and> buildResponseFromContacts empty_email_contacts
       = Inr \<lparr>primaryContactId = 1, emails = [''b@x.com''],
              phoneNumbers = [''111''], secondaryContactIds = [2]\<rparr>"
  by code_simp

text \<open>
  C7, amended. For a non-empty cluster the view is built around its primary contact \<open>p\<close>:
  the first contact marked primary in the given order, or, when none is marked primary, the
  first of the contacts sorted by createdAt. The view's emails are \<open>p\<close>'s email (first, when
  it is neither null nor empty) followed by the emails of the contacts with another id in
  their given order, null and empty values skipped and a value already emitted skipped;
  phoneNumbers follow the same rule; secondaryContactIds are the ids of the contacts other
  than \<open>p\<close>, in the given order.
\<close>

theorem C7_view_fields:
  assumes "contacts \<noteq> []"
  shows "\<exists>p r. p \<in> set contacts
     \<and> ((linkPrecedence p = primary
           \<and> (\<exists>pre post. contacts = pre @ p # post \<and> (\<forall>x\<in>set pre. linkPrecedence x \<noteq> primary)))
         \<or> ((\<forall>x\<in>set contacts. linkPrecedence x \<noteq> primary)
             \<and> p = hd (sort_key createdAt contacts)
             \<and> (\<forall>x\<in>set contacts. createdAt p \<le> createdAt x)))
     \<and> buildResponseFromContacts contacts = Inr r \<and> primaryContactId r = cid p
     \<and> emails r = spec_view_values (email p) (map email (filter (\<lambda>c. cid c \<noteq> cid p) contacts))
     \<and> phoneNumbers r =
         spec_view_values (phoneNumber p) (map phoneNumber (filter (\<lambda>c. cid c \<noteq> cid p) contacts))
     \<and> secondaryContactIds r = map cid (filter (\<lambda>c. cid c \<noteq> cid p) contacts)
     \<and> (\<forall>e. email p = Some e \<and> e \<noteq> [] \<longrightarrow> (\<exists>rest. emails r = e # rest))
     \<and> (\<forall>n. phoneNumber p = Some n \<and> n \<noteq> [] \<longrightarrow> (\<exists>rest. phoneNumbers r = n # rest))
     \<and> distinct (emails r) \<and> distinct (phoneNumbers r)"
proof -
  obtain p where p: "pickPrimary contacts = Some p" "p \<in> set contacts"
    and pin: "(linkPrecedence p = primary
           \<and> (\<exists>pre post. contacts = pre @ p # post \<and> (\<forall>x\<in>set pre. linkPrecedence x \<noteq> primary)))
         \<or> ((\<forall>x\<in>set contacts. linkPrecedence x \<noteq> primary)
             \<and> p = hd (sort_key createdAt contacts)
             \<and> (\<forall>x\<in>set contacts. createdAt p \<le> createdAt x))"
    using pickPrimary_cases[OF assms] by blast
  let ?others = "filter (\<lambda>c. cid c \<noteq> cid p) contacts"
  let ?r = "\<lparr>primaryContactId = cid p,
          emails = spec_view_values (email p) (map email ?others),
          phoneNumbers = spec_view_values (phoneNumber p) (map phoneNumber ?others),
          secondaryContactIds = map cid ?others\<rparr>"
  have b: "buildResponseFromContacts contacts = Inr ?r"
    using build_with_primary[OF assms p(1)] .
  have he: "\<exists>rest. emails ?r = e # rest" if "email p = Some e" "e \<noteq> []" for e
    using view_values_head[of "email p" "map email ?others"] that by simp
  have hp: "\<exists>rest. phoneNumbers ?r = n # rest" if "phoneNumber p = Some n" "n \<noteq> []" for n
    using view_values_head[of "phoneNumber p" "map phoneNumber ?others"] that by simp
  have d: "distinct (emails ?r)" "distinct (phoneNumbers ?r)"
    by (simp_all add: view_values_distinct)
  show ?thesis
  proof (intro exI[of _ p] exI[of _ ?r] conjI)
    show "p \<in> set contacts" by (rule p(2))
    show "(linkPrecedence p = primary
           \<and> (\<exists>pre post. contacts = pre @ p # post \<and> (\<forall>x\<in>set pre. linkPrecedence x \<noteq> primary)))
         \<or> ((\<forall>x\<in>set contacts. linkPrecedence x \<noteq> primary)
             \<and> p = hd (sort_key createdAt contacts)
             \<and> (\<forall>x\<in>set contacts. createdAt p \<le> createdAt x))" by (rule pin)
    show "buildResponseFromContacts contacts = Inr ?r" by (rule b)
    show "primaryContactId ?r = cid p" by simp
    show "emails ?r = spec_view_values (email p) (map email ?others)" by simp
    show "phoneNumbers ?r = spec_view_values (phoneNumber p) (map phoneNumber ?others)" by simp
    show "secondaryContactIds ?r = map cid ?others" by simp
    show "\<forall>e. email p = Some e \<and> e \<noteq> [] \<longrightarrow> (\<exists>rest. emails ?r = e # rest)"
      using he by blast
    show "\<forall>n. phoneNumber p = Some n \<and> n \<noteq> [] \<longrightarrow> (\<exists>rest. phoneNumbers ?r = n # rest)"
      using hp by blast
    show "distinct (emails ?r)" by (rule d(1))
    show "distinct (phoneNumbers ?r)" by (rule d(2))
  qed
qed

theorem C7_view_fields_witness:
  "unsorted_contacts \<noteq> []
   \<and> (\<exists>p\<in>set unsorted_contacts. linkPrecedence p = primary
         \<and> (\<exists>r. buildResponseFromContacts unsorted_contacts = Inr r
                \<and> primaryContactId r = cid p
                \<and> (\<exists>rest. emails r = the (email p) # rest)))
   \<and> buildResponseFromContacts unsorted_contacts
     = Inr \<lparr>primaryContactId = 1, emails = [''primary@email.com'', ''secondary@email.com''],
            phoneNumbers = [''111'', ''222''], secondaryContactIds = [2]\<rparr>"
proof -
  let ?c1 = "mkContact 1 (Some ''primary@email.com'') (Some ''111'') None primary 1"
  have ne: "unsorted_contacts \<noteq> []" by code_simp
  have c1: "?c1 \<in> set unsorted_contacts" "linkPrecedence ?c1 = primary"
    by (simp_all add: unsorted_contacts_def mkContact_def)
  have em: "\<forall>x\<in>set unsorted_contacts. \<exists>e. email x = Some e \<and> e \<noteq> []"
    by (simp add: unsorted_contacts_def mkContact_def)
  obtain p r where p: "p \<in> set unsorted_contacts"
    and pin: "(linkPrecedence p = primary
           \<and> (\<exists>pre post. unsorted_contacts = pre @ p # post
                 \<and> (\<forall>x\<in>set pre. linkPrecedence x \<noteq> primary)))
         \<or> ((\<forall>x\<in>set unsorted_contacts. linkPrecedence x \<noteq> primary)
             \<and> p = hd (sort_key createdAt unsorted_contacts)
             \<and> (\<forall>x\<in>set unsorted_contacts. createdAt p \<le> createdAt x))"
    and r: "buildResponseFromContacts unsorted_contacts = Inr r" "primaryContactId r = cid p"
    and hdv: "\<forall>e. email p = Some e \<and> e \<noteq> [] \<longrightarrow> (\<exists>rest. emails r = e # rest)"
    using C7_view_fields[OF ne] by blast
  have prim: "linkPrecedence p = primary" using pin c1 by blast
  obtain e where e: "email p = Some e" "e \<noteq> []" using em p by blast
  then have "\<exists>rest. emails r = the (email p) # rest" using hdv by simp
  then have ex: "\<exists>p\<in>set unsorted_contacts. linkPrecedence p = primary
         \<and> (\<exists>r. buildResponseFromContacts unsorted_contacts = Inr r
                \<and> primaryContactId r = cid p
                \<and> (\<exists>rest. emails r = the (email p) # rest))"
    using p prim r by blast
  have run: "buildResponseFromContacts unsorted_contacts
     = Inr \<lparr>primaryContactId = 1, emails = [''primary@email.com'', ''secondary@email.com''],
            phoneNumbers = [''111'', ''222''], secondaryContactIds = [2]\<rparr>"
    by code_simp
  show ?thesis using ne ex run by blast
qed

text \<open>
  C10. The view builder takes the first contact marked primary in the given order as the
  primary of a non-empty list, also when several are marked primary; the oldest contact by
  createdAt is taken only when none is marked primary.
\<close>

theorem C10_first_primary_chosen:
  assumes "contacts \<noteq> []"
  shows "\<exists>r. buildResponseFromContacts contacts = Inr r
     \<and> (\<forall>pre c post. contacts = pre @ c # post
            \<and> (\<forall>x\<in>set pre. linkPrecedence x \<noteq> primary)
            \<and> linkPrecedence c = primary \<longrightarrow> primaryContactId r = cid c)
     \<and> ((\<forall>x\<in>set contacts. linkPrecedence x \<noteq> primary) \<longrightarrow>
            primaryContactId r = cid (hd (sort_key createdAt contacts))
            \<and> hd (sort_key createdAt contacts) \<in> set contacts
            \<and> (\<forall>x\<in>set contacts. createdAt (hd (sort_key createdAt contacts)) \<le> createdAt x))"
proof -
  obtain p where p: "pickPrimary contacts = Some p"
    using pickPrimary_nonempty[OF assms] by blast
  then obtain r where r: "buildResponseFromContacts contacts = Inr r" "primaryContactId r = cid p"
    using build_with_primary[OF assms p] by simp
  have first: "primaryContactId r = cid c"
    if "contacts = pre @ c # post" "\<forall>x\<in>set pre. linkPrecedence x \<noteq> primary"
       "linkPrecedence c = primary"
    for pre c post
  proof -
    have "find (\<lambda>c. linkPrecedence c = primary) contacts = Some c"
      using find_first[of contacts pre c post "\<lambda>c. linkPrecedence c = primary"] that by simp
    then show ?thesis using p r by (simp add: pickPrimary_def)
  qed
  have fallback: "primaryContactId r = cid (hd (sort_key createdAt contacts))"
    if "\<forall>x\<in>set contacts. linkPrecedence x \<noteq> primary"
  proof -
    have "find (\<lambda>c. linkPrecedence c = primary) contacts = None"
      using that by (simp add: find_None_iff)
    then show ?thesis using p r by (auto simp: pickPrimary_def split: list.splits)
  qed
  show ?thesis using r first fallback sort_key_hd_min[OF assms, of createdAt] by blast
qed

theorem C10_first_primary_chosen_witness:
  "[mkContact 7 None None (Some 5) secondary 0, mkContact 5 None None None primary 9,
    mkContact 6 None None None primary 3] \<noteq> []
   \<and> (\<exists>r. buildResponseFromContacts
            [mkContact 7 None None (Some 5) secondary 0, mkContact 5 None None None primary 9,
             mkContact 6 None None None primary 3] = Inr r
          \<and> primaryContactId r = 5)"
proof -
  let ?cs = "[mkContact 7 None None (Some 5) secondary 0, mkContact 5 None None None primary 9,
              mkContact 6 None None None primary 3]"
  have ne: "?cs \<noteq> []" by simp
  obtain r where r: "buildResponseFromContacts ?cs = Inr r"
    and first: "\<forall>pre c post. ?cs = pre @ c # post
            \<and> (\<forall>x\<in>set pre. linkPrecedence x \<noteq> primary)
            \<and> linkPrecedence c = primary \<longrightarrow> primaryContactId r = cid c"
    using C10_first_primary_chosen[OF ne] by blast
  have "?cs = [mkContact 7 None None (Some 5) secondary 0] @ mkContact 5 None None None primary 9
               # [mkContact 6 None None None primary 3]
        \<and> (\<forall>x\<in>set [mkContact 7 None None (Some 5) secondary 0]. linkPrecedence x \<noteq> primary)
        \<and> linkPrecedence (mkContact 5 None None None primary 9) = primary"
    by (simp add: mkContact_def)
  with first have "primaryContactId r = cid (mkContact 5 None None None primary 9)" by blast
  then have "primaryContactId r = 5" by (simp add: mkContact_def)
  with r ne show ?thesis by blast
qed

section \<open>The request without email and phone number\<close>

text \<open>
  C4 as the claim states it fails: called with two nulls on the empty table, identify
  creates a primary contact with both fields null and returns its view.
\<close>

theorem C4_null_request_counterexample:
  "identify [] 100 None None =
     ([\<lparr>cid = 1, phoneNumber = None, email = None, linkedId = None,
        linkPrecedence = primary, createdAt = 100, updatedAt = 100, deletedAt = None\<rparr>],
      Inr \<lparr>primaryContactId = 1, emails = [], phoneNumbers = [], secondaryContactIds = []\<rparr>)"
  by (simp add: identify_def findMatchingContacts_def findMany_OR_def createNewPrimaryContact_def
      create_contact_def buildResponseFromContacts_def pickPrimary_def next_id_def Let_def)

text \<open>
  C4, amended. The guard against a request without email and phone number is the
  controller's: it answers 400 and leaves the table as it is. identify has no guard of its
  own: with two nulls it matches nothing, creates a primary contact with both fields null
  and returns the view of that contact.
\<close>

theorem C4_null_request:
  "identifyController rows now None None = (rows, Status400)
   \<and> identify rows now None None =
     (rows @ [\<lparr>cid = next_id rows, phoneNumber = None, email = None, linkedId = None,
               linkPrecedence = primary, createdAt = now, updatedAt = now, deletedAt = None\<rparr>],
      Inr \<lparr>primaryContactId = next_id rows, emails = [], phoneNumbers = [],
           secondaryContactIds = []\<rparr>)"
  by (simp add: identify_def findMatchingContacts_def findMany_OR_def createNewPrimaryContact_def
      create_contact_def buildResponseFromContacts_def pickPrimary_def identifyController_def
      Let_def)

theorem C4_null_request_witness:
  "identifyController [mkContact 1 (Some ''a@x.com'') None None primary 1] 100 None None
     = ([mkContact 1 (Some ''a@x.com'') None None primary 1], Status400)
   \<and> length (fst (identify [mkContact 1 (Some ''a@x.com'') None None primary 1] 100 None None)) = 2"
  using C4_null_request[of "[mkContact 1 (Some ''a@x.com'') None None primary 1]" 100]
  by simp

section \<open>Storage and resolution: basic facts\<close>

lemma findMatching_subset: "set (findMatchingContacts rows em ph) \<subseteq> set rows"
  by (auto simp: findMatchingContacts_def findMany_OR_def)

lemma findUnique_Some: "findUnique rows i = Some c \<Longrightarrow> c \<in> set rows \<and> cid c = i"
  by (auto simp: findUnique_def find_Some_iff)

lemma findUnique_mem:
  "c \<in> set rows \<Longrightarrow> \<exists>c'. findUnique rows (cid c) = Some c'"
  by (cases "findUnique rows (cid c)") (auto simp: findUnique_def find_None_iff)

lemma set_write_rows:
  "set (write_rows rows selected w) = (\<lambda>r. if selected r then w r else r) ` set rows"
  by (auto simp: write_rows_def)

lemma length_write_rows: "length (write_rows rows selected w) = length rows"
  using sum_length_filter_compl[of selected rows] by (simp add: write_rows_def)

lemma distinct_ids_write_rows:
  assumes "\<And>r. cid (w r) = cid r" "distinct (map cid rows)"
  shows "distinct (map cid (write_rows rows selected w))"
proof -
  have inj: "inj_on cid (set rows)" "distinct rows" using assms(2) by (simp_all add: distinct_map)
  have w: "map cid (map w xs) = map cid xs" for xs by (simp add: assms(1))
  have a: "distinct (map cid (filter (\<lambda>r. \<not> selected r) rows))"
    using assms(2) by (rule distinct_map_filter)
  have b: "distinct (map cid (filter selected rows))"
    using assms(2) by (rule distinct_map_filter)
  have c: "cid x \<noteq> cid y" if "x \<in> set rows" "\<not> selected x" "y \<in> set rows" "selected y" for x y
    using that inj(1) by (metis inj_onD)
  have "set (map cid (filter (\<lambda>r. \<not> selected r) rows)) \<inter> set (map cid (filter selected rows)) = {}"
    using c by auto
  then show ?thesis
    unfolding write_rows_def map_append w using a b by simp
qed

lemma filter_key_single:
  assumes "distinct (map f xs)" "x \<in> set xs"
  shows "filter (\<lambda>r. f r = f x) xs = [x]"
  using assms
proof (induction xs)
  case Nil then show ?case by simp
next
  case (Cons a xs)
  show ?case
  proof (cases "a = x")
    case True
    then have "f x \<notin> f ` set xs" using Cons.prems(1) by simp
    then have "filter (\<lambda>r. f r = f x) xs = []" unfolding filter_empty_conv by (metis imageI)
    then show ?thesis using True by simp
  next
    case False
    then have m: "x \<in> set xs" using Cons.prems by simp
    then have "f a \<noteq> f x" using Cons.prems(1) by auto
    then show ?thesis using Cons m by simp
  qed
qed

lemma unique_ids_write_rows:
  assumes "\<And>r. cid (w r) = cid r" "unique_ids rows"
  shows "unique_ids (write_rows rows selected w)"
  using distinct_ids_write_rows[of w rows selected] assms by (simp add: unique_ids_def)

lemma write_rows_cong:
  assumes "\<And>r. r \<in> set rows \<Longrightarrow> selected r = selected' r"
    "\<And>r. r \<in> set rows \<Longrightarrow> selected r \<Longrightarrow> w r = w' r"
  shows "write_rows rows selected w = write_rows rows selected' w'"
proof -
  have a: "filter (\<lambda>r. \<not> selected r) rows = filter (\<lambda>r. \<not> selected' r) rows"
    by (rule filter_cong[OF refl]) (simp add: assms(1))
  have b: "filter selected rows = filter selected' rows"
    by (rule filter_cong[OF refl]) (simp add: assms(1))
  have c: "map w (filter selected' rows) = map w' (filter selected' rows)"
    by (rule map_cong[OF refl]) (simp add: assms)
  show ?thesis unfolding write_rows_def a b c ..
qed

lemma merge_length: "length (mergePrimaryContacts rows now ps) = length rows"
  by (simp add: mergePrimaryContacts_def Let_def length_write_rows)

lemma update_length:
  "update_contact rows now i prec lid = Inr (rows1, c) \<Longrightarrow> length rows1 = length rows"
  by (auto simp: update_contact_def length_write_rows split: option.splits)

lemma orphan_ok:
  assumes "matching \<noteq> []" "set matching \<subseteq> set rows"
  shows "\<exists>rows1 p. handleOrphanedSecondaries rows now matching = Inr (rows1, p)
          \<and> length rows1 = length rows"
proof -
  have "sort_key createdAt matching \<noteq> []" using assms(1) by (metis length_0_conv length_sort)
  then obtain c cs where s: "sort_key createdAt matching = c # cs"
    by (cases "sort_key createdAt matching") auto
  then have "c \<in> set matching" by (metis list.set_intros(1) set_sort)
  then have "c \<in> set rows" using assms(2) by blast
  then obtain c' where c': "findUnique rows (cid c) = Some c'" using findUnique_mem by blast
  show ?thesis
    using s c' by (auto simp: handleOrphanedSecondaries_def update_contact_def length_write_rows)
qed

lemma resolve_ok:
  assumes "matching \<noteq> []" "set matching \<subseteq> set rows"
  shows "\<exists>rows1 p. resolvePrimaryContact rows now matching = Inr (rows1, p)
          \<and> length rows1 = length rows"
proof (cases "fetchPrimaryContacts rows (findAllPrimaryContactIds rows matching)")
  case Nil
  then show ?thesis using orphan_ok[OF assms] by (simp add: resolvePrimaryContact_def Let_def)
next
  case (Cons p ps)
  then show ?thesis by (simp add: resolvePrimaryContact_def Let_def merge_length)
qed

lemma should_create_iff:
  "shouldCreateSecondaryContact cluster em ph =
     ((\<exists>e. em = Some e \<and> e \<noteq> [] \<and> Some e \<notin> email ` set cluster)
      \<or> (\<exists>n. ph = Some n \<and> n \<noteq> [] \<and> Some n \<notin> phoneNumber ` set cluster))"
proof -
  have "(truthy_str v \<and> v \<notin> set (filter truthy_str (map f cluster)))
         = (\<exists>e. v = Some e \<and> e \<noteq> [] \<and> Some e \<notin> f ` set cluster)"
    for v and f :: "Contact \<Rightarrow> string option"
    by (cases v) auto
  then show ?thesis by (simp add: shouldCreateSecondaryContact_def Let_def)
qed

section \<open>The traversal collects the reachable primaries\<close>

lemma set_set_add [simp]: "set (set_add x xs) = insert x (set xs)"
  by (auto simp: set_add_def)

lemma distinct_set_add: "distinct xs \<Longrightarrow> distinct (set_add x xs)"
  by (auto simp: set_add_def)

lemma unique_ids_eq:
  "unique_ids rows \<Longrightarrow> c \<in> set rows \<Longrightarrow> d \<in> set rows \<Longrightarrow> cid c = cid d \<Longrightarrow> c = d"
  unfolding unique_ids_def by (metis distinct_map inj_onD)

lemma findUnique_unique:
  assumes "unique_ids rows" "c \<in> set rows"
  shows "findUnique rows (cid c) = Some c"
proof -
  obtain c' where c': "findUnique rows (cid c) = Some c'" using findUnique_mem[OF assms(2)] by blast
  then have "c' \<in> set rows" "cid c' = cid c" using findUnique_Some by blast+
  then show ?thesis using unique_ids_eq[OF assms(1) _ assms(2)] c' by simp
qed

lemma parent_of_mem: "parent_of rows c = Some d \<Longrightarrow> d \<in> set rows"
  by (auto simp: parent_of_def dest: findUnique_Some split: if_splits)

lemma reaches_trans_step:
  "reaches rows m c \<Longrightarrow> parent_of rows c = Some d \<Longrightarrow> reaches rows m d"
  by (induction rule: reaches.induct) (auto intro: reaches.intros)

lemma reaches_mem: "reaches rows m c \<Longrightarrow> m \<in> set rows \<Longrightarrow> c \<in> set rows"
  by (induction rule: reaches.induct) (auto dest: parent_of_mem)

lemma trace_step_cases:
  assumes "contactsToTrace s = c # rest"
  shows "trace_step rows s =
     (if cid c \<in> set (tracedIds s) then s\<lparr>contactsToTrace := rest\<rparr>
      else if linkPrecedence c = primary
      then s\<lparr>contactsToTrace := rest, tracedIds := set_add (cid c) (tracedIds s),
              allPrimaryContactIds := set_add (cid c) (allPrimaryContactIds s)\<rparr>
      else case parent_of rows c of
             None \<Rightarrow> s\<lparr>contactsToTrace := rest, tracedIds := set_add (cid c) (tracedIds s)\<rparr>
           | Some d \<Rightarrow> s\<lparr>contactsToTrace := d # rest, tracedIds := set_add (cid c) (tracedIds s)\<rparr>)"
  using assms by (auto simp: trace_step_def parent_of_def Let_def split: option.splits)

lemma trace_invI:
  assumes "set (contactsToTrace s) \<subseteq> set rows"
    and "\<And>c. c \<in> set rows \<Longrightarrow> cid c \<in> set (tracedIds s) \<Longrightarrow> linkPrecedence c = primary
            \<Longrightarrow> cid c \<in> set (allPrimaryContactIds s)"
    and "\<And>c d. c \<in> set rows \<Longrightarrow> cid c \<in> set (tracedIds s) \<Longrightarrow> parent_of rows c = Some d
            \<Longrightarrow> cid d \<in> set (tracedIds s) \<or> d \<in> set (contactsToTrace s)"
    and "\<And>i. i \<in> set (allPrimaryContactIds s) \<Longrightarrow>
            \<exists>c\<in>set rows. cid c = i \<and> linkPrecedence c = primary \<and> (\<exists>m\<in>set M. reaches rows m c)"
    and "\<And>c. c \<in> set (contactsToTrace s) \<Longrightarrow> \<exists>m\<in>set M. reaches rows m c"
    and "\<And>m. m \<in> set M \<Longrightarrow> cid m \<in> set (tracedIds s) \<or> m \<in> set (contactsToTrace s)"
  shows "trace_inv rows M s"
  unfolding trace_inv_def using assms by blast

lemma trace_inv_step:
  assumes U: "unique_ids rows" and I: "trace_inv rows M s" and ne: "contactsToTrace s \<noteq> []"
  shows "trace_inv rows M (trace_step rows s)"
proof -
  obtain c rest where wl: "contactsToTrace s = c # rest" using ne by (cases "contactsToTrace s") auto
  have J1: "set (c # rest) \<subseteq> set rows" using I wl by (simp add: trace_inv_def)
  have J2a: "cid x \<in> set (allPrimaryContactIds s)"
    if "x \<in> set rows" "cid x \<in> set (tracedIds s)" "linkPrecedence x = primary" for x
    using I that unfolding trace_inv_def by auto
  have J2b: "cid d \<in> set (tracedIds s) \<or> d \<in> set (c # rest)"
    if "x \<in> set rows" "cid x \<in> set (tracedIds s)" "parent_of rows x = Some d" for x d
    using I that wl unfolding trace_inv_def by auto
  have J3: "\<exists>x\<in>set rows. cid x = i \<and> linkPrecedence x = primary \<and> (\<exists>m\<in>set M. reaches rows m x)"
    if "i \<in> set (allPrimaryContactIds s)" for i
    using I that unfolding trace_inv_def by auto
  have J4: "\<exists>m\<in>set M. reaches rows m x" if "x \<in> set (c # rest)" for x
    using I that wl unfolding trace_inv_def by auto
  have J5: "cid m \<in> set (tracedIds s) \<or> m \<in> set (c # rest)" if "m \<in> set M" for m
    using I that wl unfolding trace_inv_def by auto
  have c_rows: "c \<in> set rows" using J1 by simp
  have same: "x = c" if "x \<in> set rows" "cid x = cid c" for x
    using unique_ids_eq[OF U that(1) c_rows that(2)] .
  have c_reach: "\<exists>m\<in>set M. reaches rows m c" using J4 by simp
  text \<open>What holds whenever the popped contact is marked as traced.\<close>
  have parent': "cid d \<in> insert (cid c) (set (tracedIds s)) \<or> d \<in> set rest"
    if "x \<in> set rows" "cid x \<in> set (tracedIds s)" "parent_of rows x = Some d" for x d
    using J2b[OF that] by auto
  have match': "cid m \<in> insert (cid c) (set (tracedIds s)) \<or> m \<in> set rest" if "m \<in> set M" for m
    using J5[OF that] by auto
  show ?thesis
  proof (cases "cid c \<in> set (tracedIds s)")
    case True
    then have st: "trace_step rows s = s\<lparr>contactsToTrace := rest\<rparr>"
      using trace_step_cases[OF wl] by simp
    show ?thesis unfolding st
    proof (rule trace_invI)
      show "set (contactsToTrace (s\<lparr>contactsToTrace := rest\<rparr>)) \<subseteq> set rows" using J1 by simp
    next
      fix x d assume "x \<in> set rows" "cid x \<in> set (tracedIds (s\<lparr>contactsToTrace := rest\<rparr>))"
        "parent_of rows x = Some d"
      then show "cid d \<in> set (tracedIds (s\<lparr>contactsToTrace := rest\<rparr>))
                 \<or> d \<in> set (contactsToTrace (s\<lparr>contactsToTrace := rest\<rparr>))"
        using parent'[of x d] True by auto
    next
      fix m assume "m \<in> set M"
      then show "cid m \<in> set (tracedIds (s\<lparr>contactsToTrace := rest\<rparr>))
                 \<or> m \<in> set (contactsToTrace (s\<lparr>contactsToTrace := rest\<rparr>))"
        using match'[of m] True by auto
    qed (use J2a J3 J4 in simp_all)
  next
    case False
    show ?thesis
    proof (cases "linkPrecedence c = primary")
      case True
      let ?s' = "s\<lparr>contactsToTrace := rest, tracedIds := set_add (cid c) (tracedIds s),
              allPrimaryContactIds := set_add (cid c) (allPrimaryContactIds s)\<rparr>"
      have st: "trace_step rows s = ?s'"
        using trace_step_cases[OF wl] False True by simp
      have np: "parent_of rows c = None" using True by (simp add: parent_of_def)
      show ?thesis unfolding st
      proof (rule trace_invI)
        show "set (contactsToTrace ?s') \<subseteq> set rows" using J1 by simp
      next
        fix x assume "x \<in> set rows" "cid x \<in> set (tracedIds ?s')" "linkPrecedence x = primary"
        then show "cid x \<in> set (allPrimaryContactIds ?s')" using J2a[of x] by auto
      next
        fix x d assume x: "x \<in> set rows" "cid x \<in> set (tracedIds ?s')" "parent_of rows x = Some d"
        have "cid x \<in> set (tracedIds s)"
        proof (rule ccontr)
          assume "cid x \<notin> set (tracedIds s)"
          then have "x = c" using x same by simp
          then show False using x(3) np by simp
        qed
        then show "cid d \<in> set (tracedIds ?s') \<or> d \<in> set (contactsToTrace ?s')"
          using parent'[OF x(1) _ x(3)] by simp
      next
        fix i assume "i \<in> set (allPrimaryContactIds ?s')"
        then have "i = cid c \<or> i \<in> set (allPrimaryContactIds s)" by simp
        then show "\<exists>x\<in>set rows. cid x = i \<and> linkPrecedence x = primary \<and> (\<exists>m\<in>set M. reaches rows m x)"
          using J3[of i] c_rows True c_reach by blast
      next
        fix x assume "x \<in> set (contactsToTrace ?s')"
        then show "\<exists>m\<in>set M. reaches rows m x" using J4[of x] by simp
      next
        fix m assume "m \<in> set M"
        then show "cid m \<in> set (tracedIds ?s') \<or> m \<in> set (contactsToTrace ?s')"
          using match'[of m] by simp
      qed
    next
      case notprim: False
      show ?thesis
      proof (cases "parent_of rows c")
        case None
        let ?s' = "s\<lparr>contactsToTrace := rest, tracedIds := set_add (cid c) (tracedIds s)\<rparr>"
        have st: "trace_step rows s = ?s'"
          using trace_step_cases[OF wl] False notprim None by simp
        show ?thesis unfolding st
        proof (rule trace_invI)
          show "set (contactsToTrace ?s') \<subseteq> set rows" using J1 by simp
        next
          fix x assume x: "x \<in> set rows" "cid x \<in> set (tracedIds ?s')" "linkPrecedence x = primary"
          have "x \<noteq> c" using x(3) notprim by auto
          then have "cid x \<in> set (tracedIds s)" using x same by auto
          then show "cid x \<in> set (allPrimaryContactIds ?s')" using J2a[OF x(1) _ x(3)] by simp
        next
          fix x d assume x: "x \<in> set rows" "cid x \<in> set (tracedIds ?s')" "parent_of rows x = Some d"
          have "x \<noteq> c" using x(3) None by auto
          then have "cid x \<in> set (tracedIds s)" using x same by auto
          then show "cid d \<in> set (tracedIds ?s') \<or> d \<in> set (contactsToTrace ?s')"
            using parent'[OF x(1) _ x(3)] by simp
        next
          fix i assume "i \<in> set (allPrimaryContactIds ?s')"
          then show "\<exists>x\<in>set rows. cid x = i \<and> linkPrecedence x = primary \<and> (\<exists>m\<in>set M. reaches rows m x)"
            using J3[of i] by simp
        next
          fix x assume "x \<in> set (contactsToTrace ?s')"
          then show "\<exists>m\<in>set M. reaches rows m x" using J4[of x] by simp
        next
          fix m assume "m \<in> set M"
          then show "cid m \<in> set (tracedIds ?s') \<or> m \<in> set (contactsToTrace ?s')"
            using match'[of m] by simp
        qed
      next
        case (Some p)
        let ?s' = "s\<lparr>contactsToTrace := p # rest, tracedIds := set_add (cid c) (tracedIds s)\<rparr>"
        have st: "trace_step rows s = ?s'"
          using trace_step_cases[OF wl] False notprim Some by simp
        have p_rows: "p \<in> set rows" using Some parent_of_mem by blast
        have p_reach: "\<exists>m\<in>set M. reaches rows m p" using c_reach Some reaches_trans_step by blast
        show ?thesis unfolding st
        proof (rule trace_invI)
          show "set (contactsToTrace ?s') \<subseteq> set rows" using J1 p_rows by simp
        next
          fix x assume x: "x \<in> set rows" "cid x \<in> set (tracedIds ?s')" "linkPrecedence x = primary"
          have "x \<noteq> c" using x(3) notprim by auto
          then have "cid x \<in> set (tracedIds s)" using x same by auto
          then show "cid x \<in> set (allPrimaryContactIds ?s')" using J2a[OF x(1) _ x(3)] by simp
        next
          fix x d assume x: "x \<in> set rows" "cid x \<in> set (tracedIds ?s')" "parent_of rows x = Some d"
          show "cid d \<in> set (tracedIds ?s') \<or> d \<in> set (contactsToTrace ?s')"
          proof (cases "x = c")
            case True
            then have "d = p" using x(3) Some by simp
            then show ?thesis by simp
          next
            case False
            then have "cid x \<in> set (tracedIds s)" using x same by auto
            then show ?thesis using parent'[OF x(1) _ x(3)] by auto
          qed
        next
          fix i assume "i \<in> set (allPrimaryContactIds ?s')"
          then show "\<exists>x\<in>set rows. cid x = i \<and> linkPrecedence x = primary \<and> (\<exists>m\<in>set M. reaches rows m x)"
            using J3[of i] by simp
        next
          fix x assume "x \<in> set (contactsToTrace ?s')"
          then show "\<exists>m\<in>set M. reaches rows m x" using J4[of x] p_reach by auto
        next
          fix m assume "m \<in> set M"
          then show "cid m \<in> set (tracedIds ?s') \<or> m \<in> set (contactsToTrace ?s')"
            using match'[of m] by auto
        qed
      qed
    qed
  qed
qed

declare trace_loop.simps [simp del]

lemma trace_loop_done: "contactsToTrace (trace_loop rows s) = []"
proof (induction rows s rule: trace_loop.induct)
  case (1 rows s)
  then show ?case by (subst trace_loop.simps) simp
qed

lemma trace_loop_inv:
  assumes "unique_ids rows" "trace_inv rows M s"
  shows "trace_inv rows M (trace_loop rows s)"
  using assms
proof (induction rows s rule: trace_loop.induct)
  case (1 rows s)
  show ?case
  proof (cases "contactsToTrace s = []")
    case True
    then show ?thesis using "1.prems" by (subst trace_loop.simps) simp
  next
    case False
    have "trace_inv rows M (trace_step rows s)" using trace_inv_step[OF "1.prems" False] .
    then have "trace_inv rows M (trace_loop rows (trace_step rows s))"
      using "1.IH"[OF False "1.prems"(1)] by simp
    then show ?thesis using False by (subst trace_loop.simps) simp
  qed
qed

lemma trace_inv_init:
  assumes "set M \<subseteq> set rows"
  shows "trace_inv rows M (trace_init M)"
  using assms by (auto simp: trace_inv_def trace_init_def intro: reaches_here)

lemma trace_inv_final:
  assumes I: "trace_inv rows M s" and fin: "contactsToTrace s = []" and M: "set M \<subseteq> set rows"
  shows "set (allPrimaryContactIds s) = cid ` reachable_primaries rows M"
proof (intro set_eqI iffI)
  fix i assume "i \<in> set (allPrimaryContactIds s)"
  then obtain c where "c \<in> set rows" "cid c = i" "linkPrecedence c = primary"
      "\<exists>m\<in>set M. reaches rows m c"
    using I unfolding trace_inv_def by blast
  then have "c \<in> reachable_primaries rows M" unfolding reachable_primaries_def by simp
  then show "i \<in> cid ` reachable_primaries rows M" using \<open>cid c = i\<close> by blast
next
  fix i assume "i \<in> cid ` reachable_primaries rows M"
  then obtain p m where p: "cid p = i" "linkPrecedence p = primary" "m \<in> set M" "reaches rows m p"
    unfolding reachable_primaries_def by auto
  have closed: "cid d \<in> set (tracedIds s)"
    if "x \<in> set rows" "cid x \<in> set (tracedIds s)" "parent_of rows x = Some d" for x d
    using I fin that unfolding trace_inv_def by auto
  have "cid m \<in> set (tracedIds s)" using I fin p(3) unfolding trace_inv_def by auto
  moreover have "m \<in> set rows" using M p(3) by blast
  ultimately have "cid p \<in> set (tracedIds s) \<and> p \<in> set rows" using p(4)
  proof (induction rule: reaches.induct[OF p(4)])
    case (1 c)
    then show ?case by simp
  next
    case (2 c d e)
    have "cid d \<in> set (tracedIds s)" using closed[OF "2.prems"(2) "2.prems"(1) "2.hyps"(1)] .
    moreover have "d \<in> set rows" using "2.hyps"(1) parent_of_mem by blast
    ultimately show ?case using "2.IH" "2.hyps"(2) by blast
  qed
  then show "i \<in> set (allPrimaryContactIds s)"
    using I p(1,2) unfolding trace_inv_def by auto
qed

lemma findAll_reachable:
  assumes "unique_ids rows" "set M \<subseteq> set rows"
  shows "set (findAllPrimaryContactIds rows M) = cid ` reachable_primaries rows M"
  unfolding findAllPrimaryContactIds_def
  using trace_inv_final[OF trace_loop_inv[OF assms(1) trace_inv_init[OF assms(2)]] trace_loop_done assms(2)] .

lemma reachable_primaries_rows:
  "set M \<subseteq> set rows \<Longrightarrow> reachable_primaries rows M \<subseteq> set rows"
  unfolding reachable_primaries_def using reaches_mem by blast

lemma fetch_reachable:
  assumes "unique_ids rows" "set M \<subseteq> set rows"
  shows "set (fetchPrimaryContacts rows (findAllPrimaryContactIds rows M)) = reachable_primaries rows M"
proof -
  have sub: "reachable_primaries rows M \<subseteq> set rows" using reachable_primaries_rows[OF assms(2)] .
  have "{c \<in> set rows. cid c \<in> cid ` reachable_primaries rows M} = reachable_primaries rows M"
  proof (intro set_eqI iffI)
    fix c assume "c \<in> {c \<in> set rows. cid c \<in> cid ` reachable_primaries rows M}"
    then obtain p where "c \<in> set rows" "p \<in> reachable_primaries rows M" "cid c = cid p" by auto
    then show "c \<in> reachable_primaries rows M"
      using unique_ids_eq[OF assms(1), of c p] sub by auto
  next
    fix c assume "c \<in> reachable_primaries rows M"
    then show "c \<in> {c \<in> set rows. cid c \<in> cid ` reachable_primaries rows M}" using sub by auto
  qed
  then show ?thesis
    by (simp add: fetchPrimaryContacts_def findAll_reachable[OF assms])
qed

lemma fetch_distinct:
  "unique_ids rows \<Longrightarrow> distinct (map cid (fetchPrimaryContacts rows ids))"
proof -
  assume "unique_ids rows"
  then have d: "distinct (map cid (filter (\<lambda>c. cid c \<in> set ids) rows))"
    unfolding unique_ids_def by (simp add: distinct_map_filter)
  show ?thesis unfolding fetchPrimaryContacts_def
    using d by (metis distinct_map distinct_sort set_sort)
qed

lemma trace_funpow:
  "\<exists>k\<le>trace_measure rows s. (trace_step rows ^^ k) s = trace_loop rows s"
proof (induction rows s rule: trace_loop.induct)
  case (1 rows s)
  show ?case
  proof (cases "contactsToTrace s = []")
    case True
    then have "(trace_step rows ^^ 0) s = trace_loop rows s"
      by (subst trace_loop.simps) simp
    then show ?thesis by blast
  next
    case False
    then obtain k where k: "k \<le> trace_measure rows (trace_step rows s)"
      "(trace_step rows ^^ k) (trace_step rows s) = trace_loop rows (trace_step rows s)"
      using "1.IH" by blast
    have "(trace_step rows ^^ Suc k) s = trace_loop rows s"
      using k(2) False by (subst trace_loop.simps) (simp add: funpow_swap1)
    moreover have "Suc k \<le> trace_measure rows s"
      using k(1) trace_step_measure[OF False, of rows] by simp
    ultimately show ?thesis by blast
  qed
qed

lemma trace_while:
  "while_option (\<lambda>s. contactsToTrace s \<noteq> []) (trace_step rows) s = Some (trace_loop rows s)"
proof (induction rows s rule: trace_loop.induct)
  case (1 rows s)
  show ?case
  proof (cases "contactsToTrace s = []")
    case True
    then show ?thesis
      by (subst while_option_unfold, subst trace_loop.simps) simp
  next
    case False
    then show ?thesis
      using "1.IH" by (subst while_option_unfold, subst trace_loop.simps) simp
  qed
qed

lemma trace_step_distinct:
  "distinct (tracedIds s) \<Longrightarrow> distinct (tracedIds (trace_step rows s))"
  by (auto simp: trace_step_def Let_def set_add_def split: list.splits option.splits)

lemma trace_loop_distinct:
  "distinct (tracedIds s) \<Longrightarrow> distinct (tracedIds (trace_loop rows s))"
proof (induction rows s rule: trace_loop.induct)
  case (1 rows s)
  show ?case
  proof (cases "contactsToTrace s = []")
    case True
    then show ?thesis using "1.prems" by (subst trace_loop.simps) simp
  next
    case False
    then show ?thesis
      using "1.IH"[OF False trace_step_distinct[OF "1.prems"]]
      by (subst trace_loop.simps) simp
  qed
qed

lemma trace_measure_init:
  "trace_measure rows (trace_init matching)
     = card (cid ` set rows \<union> cid ` set matching) + length matching"
  by (simp add: trace_measure_def trace_init_def)

lemma trace_step_dangling:
  assumes "contactsToTrace s = c # rest" "cid c \<notin> set (tracedIds s)"
    "linkPrecedence c \<noteq> primary" "truthy_num (linkedId c)"
    "findUnique rows (the (linkedId c)) = None"
  shows "trace_step rows s = s\<lparr>contactsToTrace := rest, tracedIds := tracedIds s @ [cid c]\<rparr>"
  using assms by (simp add: trace_step_def Let_def set_add_def)

text \<open>
  C9. On every table, also one whose linkedId pointers form cycles or point at missing
  ids, and from every list of matched contacts, the loop of findAllPrimaryContactIds
  stops: the \<open>while\<close> loop returns, after at most as many iterations as there are matched
  contacts plus distinct ids; no id is entered twice into the traced ids, and a contact
  whose linkedId has no row is marked traced and dropped.
\<close>

theorem C9_traversal_terminates:
  "while_option (\<lambda>s. contactsToTrace s \<noteq> []) (trace_step rows) (trace_init matching)
      = Some (trace_loop rows (trace_init matching))
   \<and> (\<exists>k\<le>card (cid ` set rows \<union> cid ` set matching) + length matching.
         (trace_step rows ^^ k) (trace_init matching) = trace_loop rows (trace_init matching))
   \<and> contactsToTrace (trace_loop rows (trace_init matching)) = []
   \<and> distinct (tracedIds (trace_loop rows (trace_init matching)))
   \<and> (\<forall>s c rest. contactsToTrace s = c # rest \<and> cid c \<notin> set (tracedIds s)
         \<and> linkPrecedence c \<noteq> primary \<and> truthy_num (linkedId c)
         \<and> findUnique rows (the (linkedId c)) = None
        \<longrightarrow> trace_step rows s = s\<lparr>contactsToTrace := rest, tracedIds := tracedIds s @ [cid c]\<rparr>)"
proof -
  have "distinct (tracedIds (trace_init matching))" by (simp add: trace_init_def)
  then have d: "distinct (tracedIds (trace_loop rows (trace_init matching)))"
    by (rule trace_loop_distinct)
  show ?thesis
    using trace_while[of rows "trace_init matching"]
      trace_funpow[of rows "trace_init matching"] trace_loop_done[of rows "trace_init matching"] d
      trace_step_dangling[of _ _ _ rows]
    unfolding trace_measure_init by blast
qed

theorem C9_traversal_terminates_witness:
  "while_option (\<lambda>s. contactsToTrace s \<noteq> []) (trace_step cyclic_store) (trace_init cyclic_store)
     = Some \<lparr>contactsToTrace = [], tracedIds = [3, 2, 1], allPrimaryContactIds = []\<rparr>"
proof -
  have "trace_loop cyclic_store (trace_init cyclic_store)
          = \<lparr>contactsToTrace = [], tracedIds = [3, 2, 1], allPrimaryContactIds = []\<rparr>"
    by code_simp
  then show ?thesis
    using C9_traversal_terminates[of cyclic_store cyclic_store] by simp
qed

section \<open>The surviving primary\<close>

lemma sort_key_hd_first:
  assumes "xs \<noteq> []"
  shows "filter (\<lambda>y. f y = f (hd (sort_key f xs))) xs \<noteq> []
         \<and> hd (filter (\<lambda>y. f y = f (hd (sort_key f xs))) xs) = hd (sort_key f xs)"
proof -
  have "sort_key f xs \<noteq> []" using assms by (metis length_0_conv length_sort)
  then obtain c cs where s: "sort_key f xs = c # cs" by (cases "sort_key f xs") auto
  have "filter (\<lambda>y. f y = f c) xs = filter (\<lambda>y. f y = f c) (c # cs)"
    using sort_key_stable[of f "f c" xs] s by simp
  then show ?thesis using s by simp
qed

lemma hd_filter_before:
  assumes "filter Q xs \<noteq> []" "p \<in> set xs" "Q p" "p \<noteq> hd (filter Q xs)"
  shows "\<exists>as bs cs. xs = as @ hd (filter Q xs) # bs @ p # cs"
  using assms
proof (induction xs)
  case Nil
  then show ?case by simp
next
  case (Cons x xs)
  show ?case
  proof (cases "Q x")
    case True
    then have h: "hd (filter Q (x # xs)) = x" by simp
    then have "p \<in> set xs" using Cons.prems by auto
    then obtain bs cs where "xs = bs @ p # cs" by (meson split_list)
    then have "x # xs = [] @ x # bs @ p # cs" by simp
    then show ?thesis unfolding h by blast
  next
    case False
    then have f: "filter Q (x # xs) = filter Q xs" by simp
    have "p \<in> set xs" using Cons.prems False by auto
    then obtain as bs cs where "xs = as @ hd (filter Q xs) # bs @ p # cs"
      using Cons.IH Cons.prems unfolding f by blast
    then have "x # xs = (x # as) @ hd (filter Q xs) # bs @ p # cs" by simp
    then show ?thesis unfolding f by blast
  qed
qed

lemma sorted_before_less:
  assumes "rows = as @ s # bs @ p # cs" "sorted (map cid rows)" "distinct (map cid rows)"
  shows "cid s < cid p"
proof -
  have "cid s \<le> cid p" using assms(1,2) by (auto simp: sorted_append)
  moreover have "cid s \<noteq> cid p" using assms(1,3) by auto
  ultimately show ?thesis by simp
qed

lemma resolve_survivor:
  assumes "fetchPrimaryContacts rows (findAllPrimaryContactIds rows matching) \<noteq> []"
  shows "\<exists>rows'. resolvePrimaryContact rows now matching
           = Inr (rows', hd (fetchPrimaryContacts rows (findAllPrimaryContactIds rows matching)))"
  using assms by (auto simp: resolvePrimaryContact_def Let_def split: list.splits)

text \<open>
  C3 as the claim states it fails: contacts 2 and 1 are primary with the same createdAt,
  the request matches both, and contact 2 survives, not the one with the lower id. The
  query orders by createdAt alone.
\<close>

theorem C3_lower_id_counterexample:
  "fetchPrimaryContacts tie_store
      (findAllPrimaryContactIds tie_store
         (findMatchingContacts tie_store (Some ''b@x.com'') (Some ''111''))) = tie_store
   \<and> snd (identify tie_store 100 (Some ''b@x.com'') (Some ''111''))
       = Inr \<lparr>primaryContactId = 2, emails = [''a@x.com'', ''b@x.com''],
              phoneNumbers = [''111'', ''222''], secondaryContactIds = [1]\<rparr>"
  by code_simp

text \<open>
  C3, amended. When a primary contact is reachable from the matches, the contact that
  resolution returns is the same at every call on the same table: a reachable primary
  with the earliest createdAt and, among the reachable primaries of that createdAt, the
  one the storage scans first (the code orders by createdAt only and has no tie-break on
  the id). It is the one with the lower id when the table is scanned in ascending order
  of id.
\<close>

theorem C3_survivor_tie_break:
  assumes U: "unique_ids rows" and M: "set matching \<subseteq> set rows"
    and p: "p \<in> reachable_primaries rows matching"
  shows "\<exists>S. (\<forall>now. \<exists>rows'. resolvePrimaryContact rows now matching = Inr (rows', S))
      \<and> S \<in> reachable_primaries rows matching
      \<and> createdAt S \<le> createdAt p
      \<and> (createdAt S = createdAt p \<and> S \<noteq> p \<longrightarrow> (\<exists>xs ys zs. rows = xs @ S # ys @ p # zs))
      \<and> (createdAt S = createdAt p \<and> S \<noteq> p \<and> sorted (map cid rows) \<longrightarrow> cid S < cid p)"
proof -
  let ?ids = "findAllPrimaryContactIds rows matching"
  let ?unsorted = "filter (\<lambda>c. cid c \<in> set ?ids) rows"
  let ?P = "fetchPrimaryContacts rows ?ids"
  let ?S = "hd ?P"
  have setP: "set ?P = reachable_primaries rows matching" using fetch_reachable[OF U M] .
  have Pdef: "?P = sort_key createdAt ?unsorted" by (simp add: fetchPrimaryContacts_def)
  have p_uns: "p \<in> set ?unsorted" using p setP unfolding Pdef by simp
  then have ne_uns: "?unsorted \<noteq> []" by (metis empty_iff empty_set)
  have ne: "?P \<noteq> []" using p setP by (metis empty_iff empty_set)
  have res: "\<forall>now. \<exists>rows'. resolvePrimaryContact rows now matching = Inr (rows', ?S)"
    using resolve_survivor[OF ne] by blast
  have S_in: "?S \<in> reachable_primaries rows matching" using ne setP by (metis hd_in_set)
  have oldest: "createdAt ?S \<le> createdAt p"
    using sort_key_hd_min[OF ne_uns, of createdAt] p_uns unfolding Pdef by blast
  have before: "\<exists>xs ys zs. rows = xs @ ?S # ys @ p # zs" if eq: "createdAt ?S = createdAt p" and neq: "?S \<noteq> p"
  proof -
    let ?Q = "\<lambda>c. cid c \<in> set ?ids \<and> createdAt c = createdAt ?S"
    have first: "filter (\<lambda>y. createdAt y = createdAt ?S) ?unsorted \<noteq> []"
      "hd (filter (\<lambda>y. createdAt y = createdAt ?S) ?unsorted) = ?S"
      using sort_key_hd_first[OF ne_uns, of createdAt] unfolding Pdef by blast+
    have fQ: "filter (\<lambda>y. createdAt y = createdAt ?S) ?unsorted = filter ?Q rows"
      by (simp add: conj_commute)
    have "p \<in> set rows" "?Q p" using p_uns eq by auto
    then show ?thesis
      using hd_filter_before[of ?Q rows p] first neq unfolding fQ by metis
  qed
  have lower: "cid ?S < cid p"
    if eq: "createdAt ?S = createdAt p" and neq: "?S \<noteq> p" and srt: "sorted (map cid rows)"
  proof -
    obtain xs ys zs where "rows = xs @ ?S # ys @ p # zs" using before[OF eq neq] by blast
    then show ?thesis using sorted_before_less[OF _ srt] U unfolding unique_ids_def by blast
  qed
  show ?thesis using res S_in oldest before lower by blast
qed

theorem C3_survivor_tie_break_witness:
  "unique_ids tie_store_by_id \<and> set tie_store_by_id \<subseteq> set tie_store_by_id
   \<and> mkContact 2 (Some ''a@x.com'') (Some ''111'') None primary 5
        \<in> reachable_primaries tie_store_by_id tie_store_by_id
   \<and> sorted (map cid tie_store_by_id)
   \<and> (\<exists>rows'. resolvePrimaryContact tie_store_by_id 100 tie_store_by_id
          = Inr (rows', mkContact 1 (Some ''b@x.com'') (Some ''222'') None primary 5))
   \<and> cid (mkContact 1 (Some ''b@x.com'') (Some ''222'') None primary 5)
        < cid (mkContact 2 (Some ''a@x.com'') (Some ''111'') None primary 5)"
proof -
  let ?c1 = "mkContact 1 (Some ''b@x.com'') (Some ''222'') None primary 5"
  let ?c2 = "mkContact 2 (Some ''a@x.com'') (Some ''111'') None primary 5"
  have U: "unique_ids tie_store_by_id" by code_simp
  have M: "set tie_store_by_id \<subseteq> set tie_store_by_id" by simp
  have srt: "sorted (map cid tie_store_by_id)" by code_simp
  have p: "?c2 \<in> reachable_primaries tie_store_by_id tie_store_by_id"
    unfolding reachable_primaries_def
    using reaches_here[of tie_store_by_id ?c2] by (simp add: tie_store_by_id_def mkContact_def)
  obtain S where S: "\<forall>now. \<exists>rows'. resolvePrimaryContact tie_store_by_id now tie_store_by_id = Inr (rows', S)"
    and low: "createdAt S = createdAt ?c2 \<and> S \<noteq> ?c2 \<and> sorted (map cid tie_store_by_id)
                \<longrightarrow> cid S < cid ?c2"
    using C3_survivor_tie_break[OF U M p] by blast
  let ?merged = "[?c1, (mkContact 2 (Some ''a@x.com'') (Some ''111'') (Some 1) secondary 5)
                        \<lparr>updatedAt := 100\<rparr>]"
  have res: "resolvePrimaryContact tie_store_by_id 100 tie_store_by_id = Inr (?merged, ?c1)"
    by code_simp
  obtain rows' where "resolvePrimaryContact tie_store_by_id 100 tie_store_by_id = Inr (rows', S)"
    using S by blast
  then have "Inr (rows', S) = (Inr (?merged, ?c1) :: error + Contact list \<times> Contact)"
    using res by (rule trans[OF sym])
  then have eq: "S = ?c1" by simp
  have "createdAt ?c1 = createdAt ?c2 \<and> ?c1 \<noteq> ?c2" by (simp add: mkContact_def)
  then have "cid ?c1 < cid ?c2" using low srt unfolding eq by blast
  then show ?thesis using U M srt p res by blast
qed

section \<open>The invariants of the table are preserved\<close>

lemma inv1_iff:
  "inv_primary_unlinked rows = (\<forall>c\<in>set rows. linkPrecedence c = primary \<longrightarrow> linkedId c = None)"
  by (simp add: inv_primary_unlinked_def list_all_iff)

lemma inv2_iff:
  "inv_secondary_linked rows =
     (\<forall>c\<in>set rows. linkPrecedence c = secondary \<longrightarrow>
        (\<exists>p\<in>set rows. linkedId c = Some (cid p) \<and> linkPrecedence p = primary))"
  by (simp add: inv_secondary_linked_def list_all_iff list_ex_iff)

lemma inv1_cong: "set a = set b \<Longrightarrow> inv_primary_unlinked a = inv_primary_unlinked b"
  by (simp add: inv1_iff)

lemma inv2_cong: "set a = set b \<Longrightarrow> inv_secondary_linked a = inv_secondary_linked b"
  by (simp add: inv2_iff)

lemma fold_max_ge: "(a::int) \<le> fold max xs a \<and> (\<forall>x\<in>set xs. x \<le> fold max xs a)"
proof (induction xs arbitrary: a)
  case Nil
  then show ?case by simp
next
  case (Cons y ys)
  have "max y a \<le> fold max ys (max y a)" "\<forall>x\<in>set ys. x \<le> fold max ys (max y a)"
    using Cons.IH[of "max y a"] by blast+
  then show ?case by auto
qed

lemma next_id_fresh: "c \<in> set rows \<Longrightarrow> cid c < next_id rows"
  using fold_max_ge[of 0 "map cid rows"] by (auto simp: next_id_def)

lemma unique_ids_append:
  assumes "unique_ids rows" "cid n = next_id rows"
  shows "unique_ids (rows @ [n])"
proof -
  have "cid c \<noteq> cid n" if "c \<in> set rows" for c
    using next_id_fresh[OF that] assms(2) by simp
  then have "cid n \<notin> cid ` set rows" by force
  then show ?thesis using assms(1) by (simp add: unique_ids_def)
qed

lemma map_fixed_mem: "x \<in> set xs \<Longrightarrow> f x = x \<Longrightarrow> x \<in> set (map f xs)"
  by force

lemma not_primary: "(l \<noteq> primary) = (l = secondary)"
  by (cases l) auto

lemma append_row_inv:
  assumes U: "unique_ids rows" and I1: "inv_primary_unlinked rows" and I2: "inv_secondary_linked rows"
    and n: "cid n = next_id rows"
    and link: "(linkPrecedence n = primary \<and> linkedId n = None)
        \<or> (linkPrecedence n = secondary \<and> (\<exists>p\<in>set rows. linkedId n = Some (cid p) \<and> linkPrecedence p = primary))"
  shows "unique_ids (rows @ [n]) \<and> inv_primary_unlinked (rows @ [n]) \<and> inv_secondary_linked (rows @ [n])"
proof (intro conjI)
  show "unique_ids (rows @ [n])" using unique_ids_append[OF U n] .
  show "inv_primary_unlinked (rows @ [n])" using I1 link unfolding inv1_iff by auto
  show "inv_secondary_linked (rows @ [n])" using I2 link unfolding inv2_iff by (auto; blast)
qed

lemma merge_inv:
  assumes U: "unique_ids rows" and I1: "inv_primary_unlinked rows"
    and P: "set (S # others) \<subseteq> set rows" "\<forall>p\<in>set (S # others). linkPrecedence p = primary"
      "distinct (map cid (S # others))"
  shows "unique_ids (mergePrimaryContacts rows now (S # others))
     \<and> inv_primary_unlinked (mergePrimaryContacts rows now (S # others))
     \<and> (inv_secondary_linked rows \<longrightarrow>
          inv_secondary_linked (mergePrimaryContacts rows now (S # others)))
     \<and> S \<in> set (mergePrimaryContacts rows now (S # others))"
proof -
  let ?O = "set (map cid others)"
  let ?D = "\<lambda>r. cid r \<in> ?O \<or> (case linkedId r of None \<Rightarrow> False | Some l \<Rightarrow> l \<in> ?O)"
  let ?g = "\<lambda>r. if ?D r then set_link now secondary (Some (cid S)) r else r"
  have m: "set (mergePrimaryContacts rows now (S # others)) = set (map ?g rows)"
    by (simp add: mergePrimaryContacts_def Let_def set_write_rows)
  have keep: "?g q = q" if "q \<in> set rows" "linkPrecedence q = primary" "cid q \<notin> ?O" for q
  proof -
    have "linkedId q = None" using I1 that unfolding inv1_iff by blast
    then show ?thesis using that by simp
  qed
  have S: "S \<in> set rows" "linkPrecedence S = primary" "cid S \<notin> ?O" using P by auto
  have S_in: "S \<in> set (map ?g rows)" using map_fixed_mem[of S rows ?g] S(1) keep[OF S] by blast
  have u: "unique_ids (mergePrimaryContacts rows now (S # others))"
    unfolding mergePrimaryContacts_def Let_def
    by (rule unique_ids_write_rows[OF _ U]) (simp add: set_link_def)
  have i1: "inv_primary_unlinked (map ?g rows)"
    unfolding inv1_iff
  proof (intro ballI impI)
    fix c' assume c': "c' \<in> set (map ?g rows)" "linkPrecedence c' = primary"
    then obtain c where c: "c \<in> set rows" "c' = ?g c" by auto
    have "\<not> ?D c" using c' c by (auto simp: set_link_def split: if_splits)
    then have "c' = c" using c by simp
    then have "c' \<in> set rows" using c(1) by simp
    then show "linkedId c' = None" using I1 c'(2) unfolding inv1_iff by blast
  qed
  have i2: "inv_secondary_linked (map ?g rows)" if I2: "inv_secondary_linked rows"
    unfolding inv2_iff
  proof (intro ballI impI)
    fix c' assume c': "c' \<in> set (map ?g rows)" "linkPrecedence c' = secondary"
    then obtain c where c: "c \<in> set rows" "c' = ?g c" by auto
    show "\<exists>p\<in>set (map ?g rows). linkedId c' = Some (cid p) \<and> linkPrecedence p = primary"
    proof (cases "?D c")
      case True
      then have "linkedId c' = Some (cid S)" using c by (simp add: set_link_def)
      then show ?thesis using S_in S(2) by blast
    next
      case False
      then have eq: "c' = c" using c by simp
      have "linkPrecedence c = secondary" using c'(2) eq by simp
      then obtain q where q: "q \<in> set rows" "linkedId c = Some (cid q)" "linkPrecedence q = primary"
        using I2 c(1) unfolding inv2_iff by blast
      have "cid q \<notin> ?O" using False q(2) by auto
      then have "?g q = q" using keep q by blast
      then have "q \<in> set (map ?g rows)" using map_fixed_mem[of q rows ?g] q(1) by blast
      then show ?thesis using q eq by blast
    qed
  qed
  show ?thesis using u i1 i2 S_in inv1_cong[OF m] inv2_cong[OF m] m by blast
qed

lemma promote_inv:
  assumes U: "unique_ids rows" and X: "X \<in> set rows" "linkPrecedence X \<noteq> primary"
  shows "\<exists>rows1. update_contact rows now (cid X) primary None
            = Inr (rows1, set_link now primary None X)
     \<and> rows1 = filter (\<lambda>r. cid r \<noteq> cid X) rows @ [set_link now primary None X]
     \<and> set rows1 = (\<lambda>r. if cid r = cid X then set_link now primary None r else r) ` set rows
     \<and> unique_ids rows1
     \<and> (inv_primary_unlinked rows \<longrightarrow> inv_primary_unlinked rows1)
     \<and> (inv_secondary_linked rows \<longrightarrow> inv_secondary_linked rows1)
     \<and> set_link now primary None X \<in> set rows1"
proof -
  let ?h = "\<lambda>r. if cid r = cid X then set_link now primary None r else r"
  have fu: "findUnique rows (cid X) = Some X" using findUnique_unique[OF U X(1)] .
  let ?T = "write_rows rows (\<lambda>r. cid r = cid X) (set_link now primary None)"
  have upd: "update_contact rows now (cid X) primary None = Inr (?T, set_link now primary None X)"
    using fu by (simp add: update_contact_def)
  have only: "c = X" if "c \<in> set rows" "cid c = cid X" for c
    using unique_ids_eq[OF U that(1) X(1) that(2)] .
  have sel: "filter (\<lambda>r. cid r = cid X) rows = [X]"
    using filter_key_single[of cid rows X] U X(1) unfolding unique_ids_def by blast
  have shape: "?T = filter (\<lambda>r. cid r \<noteq> cid X) rows @ [set_link now primary None X]"
    unfolding write_rows_def sel by simp
  have setT: "set ?T = set (map ?h rows)" by (simp add: set_write_rows)
  have u: "unique_ids ?T"
    by (rule unique_ids_write_rows[OF _ U]) (simp add: set_link_def)
  have p_in: "set_link now primary None X \<in> set (map ?h rows)"
  proof -
    have "?h X \<in> ?h ` set rows" using X(1) by (rule imageI)
    then show ?thesis by simp
  qed
  have i1: "inv_primary_unlinked (map ?h rows)" if I1: "inv_primary_unlinked rows"
    unfolding inv1_iff
  proof (intro ballI impI)
    fix c' assume c': "c' \<in> set (map ?h rows)" "linkPrecedence c' = primary"
    then obtain c where c: "c \<in> set rows" "c' = ?h c" by auto
    show "linkedId c' = None"
    proof (cases "cid c = cid X")
      case True
      then show ?thesis using c by (simp add: set_link_def)
    next
      case False
      then have "c' = c" using c by simp
      then have "c' \<in> set rows" using c(1) by simp
      then show ?thesis using I1 c'(2) unfolding inv1_iff by blast
    qed
  qed
  have i2: "inv_secondary_linked (map ?h rows)" if I2: "inv_secondary_linked rows"
    unfolding inv2_iff
  proof (intro ballI impI)
    fix c' assume c': "c' \<in> set (map ?h rows)" "linkPrecedence c' = secondary"
    then obtain c where c: "c \<in> set rows" "c' = ?h c" by auto
    have "cid c \<noteq> cid X" using c c'(2) by (auto simp: set_link_def)
    then have eq: "c' = c" using c by simp
    have "linkPrecedence c = secondary" using c'(2) eq by simp
    then obtain q where q: "q \<in> set rows" "linkedId c = Some (cid q)" "linkPrecedence q = primary"
      using I2 c(1) unfolding inv2_iff by blast
    have "q \<noteq> X" using q(3) X(2) by auto
    then have "cid q \<noteq> cid X" using only[OF q(1)] by blast
    then have "?h q = q" by simp
    then have "q \<in> set (map ?h rows)" using map_fixed_mem[of q rows ?h] q(1) by blast
    then show "\<exists>p\<in>set (map ?h rows). linkedId c' = Some (cid p) \<and> linkPrecedence p = primary"
      using q eq by blast
  qed
  have setT': "set ?T = ?h ` set rows" by (simp add: set_write_rows)
  show ?thesis
    using upd shape setT' u i1 i2 p_in inv1_cong[OF setT] inv2_cong[OF setT] setT by blast
qed

lemma fetch_primary_rows:
  assumes "unique_ids rows" "set M \<subseteq> set rows"
    "c \<in> set (fetchPrimaryContacts rows (findAllPrimaryContactIds rows M))"
  shows "c \<in> set rows \<and> linkPrecedence c = primary"
proof -
  have "c \<in> reachable_primaries rows M" using assms(3) fetch_reachable[OF assms(1,2)] by simp
  then show ?thesis
    using reachable_primaries_rows[OF assms(2)] unfolding reachable_primaries_def by auto
qed

lemma resolve_inv:
  assumes U: "unique_ids rows" and I1: "inv_primary_unlinked rows" and I2: "inv_secondary_linked rows"
    and M: "matching \<noteq> []" "set matching \<subseteq> set rows"
  shows "\<exists>rows1 p. resolvePrimaryContact rows now matching = Inr (rows1, p)
     \<and> unique_ids rows1 \<and> inv_primary_unlinked rows1 \<and> inv_secondary_linked rows1
     \<and> p \<in> set rows1 \<and> linkPrecedence p = primary"
proof (cases "fetchPrimaryContacts rows (findAllPrimaryContactIds rows matching)")
  case Nil
  have "sort_key createdAt matching \<noteq> []" using M(1) by (metis length_0_conv length_sort)
  then obtain X cs where s: "sort_key createdAt matching = X # cs"
    by (cases "sort_key createdAt matching") auto
  then have "X \<in> set matching" by (metis list.set_intros(1) set_sort)
  then have X: "X \<in> set rows" using M(2) by blast
  have res: "resolvePrimaryContact rows now matching =
       (if linkPrecedence X \<noteq> primary then update_contact rows now (cid X) primary None
        else Inr (rows, X))"
    using Nil s by (simp add: resolvePrimaryContact_def handleOrphanedSecondaries_def Let_def)
  show ?thesis
  proof (cases "linkPrecedence X \<noteq> primary")
    case True
    then show ?thesis using promote_inv[OF U X True, of now] I1 I2 res
      by (auto simp: set_link_def)
  next
    case False
    then show ?thesis using res U I1 I2 X by simp
  qed
next
  case (Cons S others)
  have all: "\<forall>c\<in>set (S # others). c \<in> set rows \<and> linkPrecedence c = primary"
    using fetch_primary_rows[OF U M(2)] Cons by metis
  have d: "distinct (map cid (S # others))" using fetch_distinct[OF U, of "findAllPrimaryContactIds rows matching"] Cons by simp
  have res: "resolvePrimaryContact rows now matching =
       Inr (if others \<noteq> [] then mergePrimaryContacts rows now (S # others) else rows, S)"
    using Cons by (simp add: resolvePrimaryContact_def Let_def)
  show ?thesis
  proof (cases "others = []")
    case True
    then show ?thesis using res U I1 I2 all by simp
  next
    case False
    have sub: "set (S # others) \<subseteq> set rows" using all by blast
    have prim: "\<forall>p\<in>set (S # others). linkPrecedence p = primary" using all by blast
    show ?thesis using merge_inv[OF U I1 sub prim d, of now] I2 res False all by simp
  qed
qed

text \<open>
  C8. On a table with unique ids in which no primary contact has linkedId set and every
  secondary contact's linkedId is the id of a primary contact, every call of identify
  (whatever it does: create a primary, demote in a merge, promote an orphan, create a
  secondary) leaves a table with the same three properties.
\<close>

theorem C8_invariants_preserved:
  assumes U: "unique_ids rows" and I1: "inv_primary_unlinked rows" and I2: "inv_secondary_linked rows"
  shows "unique_ids (fst (identify rows now em ph))
     \<and> inv_primary_unlinked (fst (identify rows now em ph))
     \<and> inv_secondary_linked (fst (identify rows now em ph))"
proof (cases "findMatchingContacts rows em ph = []")
  case True
  let ?n = "\<lparr>cid = next_id rows, phoneNumber = ph, email = em, linkedId = None,
             linkPrecedence = primary, createdAt = now, updatedAt = now, deletedAt = None\<rparr>"
  have "fst (identify rows now em ph) = rows @ [?n]"
    using True by (simp add: identify_def createNewPrimaryContact_def create_contact_def Let_def)
  then show ?thesis using append_row_inv[OF U I1 I2, of ?n] by simp
next
  case False
  obtain rows1 p where r: "resolvePrimaryContact rows now (findMatchingContacts rows em ph) = Inr (rows1, p)"
    and inv: "unique_ids rows1" "inv_primary_unlinked rows1" "inv_secondary_linked rows1"
    and p: "p \<in> set rows1" "linkPrecedence p = primary"
    using resolve_inv[OF U I1 I2 False findMatching_subset] by blast
  let ?n = "\<lparr>cid = next_id rows1, phoneNumber = ph, email = em, linkedId = Some (cid p),
             linkPrecedence = secondary, createdAt = now, updatedAt = now, deletedAt = None\<rparr>"
  have st: "fst (identify rows now em ph) =
      (if shouldCreateSecondaryContact (getAllRelatedContacts rows1 (cid p)) em ph
       then rows1 @ [?n] else rows1)"
    using False r by (simp add: identify_def Let_def createSecondaryContact_def create_contact_def)
  have "unique_ids (rows1 @ [?n]) \<and> inv_primary_unlinked (rows1 @ [?n]) \<and> inv_secondary_linked (rows1 @ [?n])"
    using append_row_inv[OF inv, of ?n] p by auto
  then show ?thesis using st inv by simp
qed

theorem C8_invariants_preserved_witness:
  "unique_ids merge_store \<and> inv_primary_unlinked merge_store \<and> inv_secondary_linked merge_store
   \<and> fst (identify merge_store 100 (Some ''c@x.com'') (Some ''111''))
       = merge_store @ [mkContact 3 (Some ''c@x.com'') (Some ''111'') (Some 1) secondary 100]
   \<and> unique_ids (merge_store @ [mkContact 3 (Some ''c@x.com'') (Some ''111'') (Some 1) secondary 100])
   \<and> inv_primary_unlinked
        (merge_store @ [mkContact 3 (Some ''c@x.com'') (Some ''111'') (Some 1) secondary 100])
   \<and> inv_secondary_linked
        (merge_store @ [mkContact 3 (Some ''c@x.com'') (Some ''111'') (Some 1) secondary 100])"
proof -
  have U: "unique_ids merge_store" by code_simp
  have I1: "inv_primary_unlinked merge_store" by code_simp
  have I2: "inv_secondary_linked merge_store" by code_simp
  have st: "fst (identify merge_store 100 (Some ''c@x.com'') (Some ''111''))
       = merge_store @ [mkContact 3 (Some ''c@x.com'') (Some ''111'') (Some 1) secondary 100]"
    by code_simp
  show ?thesis
    using C8_invariants_preserved[OF U I1 I2, of 100 "Some ''c@x.com''" "Some ''111''"] U I1 I2 st
    by simp
qed

section \<open>Merging two identities\<close>

lemma find_only:
  assumes "S \<in> set xs" "P S" "\<forall>x\<in>set xs. P x \<longrightarrow> x = S"
  shows "find P xs = Some S"
  using assms
proof (induction xs)
  case Nil
  then show ?case by simp
next
  case (Cons a xs)
  show ?case
  proof (cases "P a")
    case True
    have "a \<in> set (a # xs)" by simp
    then have "a = S" using Cons.prems(3) True by blast
    then show ?thesis using True by simp
  next
    case False
    have "S \<noteq> a" using False Cons.prems(2) by blast
    then have in_xs: "S \<in> set xs" using Cons.prems(1) by simp
    have rest: "\<forall>x\<in>set xs. P x \<longrightarrow> x = S" using Cons.prems(3) by simp
    have "find P xs = Some S" using Cons.IH[OF in_xs Cons.prems(2) rest] .
    then show ?thesis using False by simp
  qed
qed

lemma response_primary:
  assumes U: "unique_ids rows1" and I1: "inv_primary_unlinked rows1"
    and S: "S \<in> set rows1" "linkPrecedence S = primary"
    and extra: "\<forall>n\<in>set extra. linkPrecedence n \<noteq> primary"
  shows "\<exists>r. buildResponseFromContacts (getAllRelatedContacts rows1 (cid S) @ extra) = Inr r
           \<and> primaryContactId r = cid S"
proof -
  let ?cs = "getAllRelatedContacts rows1 (cid S) @ extra"
  have S_in: "S \<in> set ?cs" using S(1) by (simp add: getAllRelatedContacts_def)
  have only: "x = S" if "x \<in> set ?cs" "linkPrecedence x = primary" for x
  proof -
    have x: "x \<in> set rows1" "cid x = cid S \<or> linkedId x = Some (cid S)"
      using that extra by (auto simp: getAllRelatedContacts_def)
    then have "linkedId x = None" using I1 that(2) unfolding inv1_iff by blast
    then have "cid x = cid S" using x(2) by simp
    then show ?thesis using unique_ids_eq[OF U x(1) S(1)] by simp
  qed
  have all: "\<forall>x\<in>set ?cs. linkPrecedence x = primary \<longrightarrow> x = S"
    using only by blast
  have "find (\<lambda>c. linkPrecedence c = primary) ?cs = Some S"
    by (rule find_only[OF S_in _ all]) (rule S(2))
  then have pick: "pickPrimary ?cs = Some S" by (simp add: pickPrimary_def)
  have ne: "?cs \<noteq> []" using S_in by auto
  show ?thesis using build_with_primary[OF ne pick] by simp
qed

lemma identify_matched:
  assumes "findMatchingContacts rows em ph \<noteq> []"
    "resolvePrimaryContact rows now (findMatchingContacts rows em ph) = Inr (rows1, p)"
  shows "identify rows now em ph =
     (let new = (if shouldCreateSecondaryContact (getAllRelatedContacts rows1 (cid p)) em ph
                 then [new_secondary rows1 now em ph (cid p)] else [])
      in (rows1 @ new, buildResponseFromContacts (getAllRelatedContacts rows1 (cid p) @ new)))"
  using assms
  by (simp add: identify_def Let_def createSecondaryContact_def create_contact_def
      new_secondary_def)

lemma fetch_two:
  assumes U: "unique_ids rows" and M: "set M \<subseteq> set rows"
    and two: "p1 \<in> reachable_primaries rows M" "p2 \<in> reachable_primaries rows M" "p1 \<noteq> p2"
  shows "\<exists>S others. fetchPrimaryContacts rows (findAllPrimaryContactIds rows M) = S # others
     \<and> others \<noteq> [] \<and> set others = reachable_primaries rows M - {S}
     \<and> S \<in> reachable_primaries rows M
     \<and> (\<forall>p\<in>reachable_primaries rows M. createdAt S \<le> createdAt p)"
proof -
  let ?P = "fetchPrimaryContacts rows (findAllPrimaryContactIds rows M)"
  have setP: "set ?P = reachable_primaries rows M" using fetch_reachable[OF U M] .
  have d: "distinct ?P" using fetch_distinct[OF U, of "findAllPrimaryContactIds rows M"]
    by (metis distinct_map)
  obtain S others where P: "?P = S # others"
    using two(1) setP by (cases ?P) auto
  have others: "set others = reachable_primaries rows M - {S}"
    using setP d unfolding P by auto
  have "p1 \<in> set others \<or> p2 \<in> set others"
  proof (cases "p1 = S")
    case True
    then have "p2 \<noteq> S" using two(3) by simp
    then show ?thesis using two(2) unfolding others by simp
  next
    case False
    then show ?thesis using two(1) unfolding others by simp
  qed
  then have ne: "others \<noteq> []" by (cases others) simp_all
  have S_in: "S \<in> reachable_primaries rows M"
    using setP unfolding P by (metis list.set_intros(1))
  have "sorted (map createdAt ?P)" by (simp add: fetchPrimaryContacts_def)
  then have "\<forall>p\<in>set (S # others). createdAt S \<le> createdAt p" unfolding P by simp
  then have old: "\<forall>p\<in>reachable_primaries rows M. createdAt S \<le> createdAt p"
    using setP unfolding P by metis
  show ?thesis
    by (intro exI[of _ S] exI[of _ others] conjI) (fact P ne others S_in old)+
qed

lemma merge_as_demotion:
  assumes U: "unique_ids rows" and D: "set others = D" "D \<subseteq> set rows"
  shows "mergePrimaryContacts rows now (S # others) =
     filter (\<lambda>r. \<not> (r \<in> D \<or> (\<exists>q\<in>D. linkedId r = Some (cid q)))) rows
     @ map (\<lambda>r. r\<lparr>linkedId := Some (cid S), linkPrecedence := secondary, updatedAt := now\<rparr>)
         (filter (\<lambda>r. r \<in> D \<or> (\<exists>q\<in>D. linkedId r = Some (cid q))) rows)"
proof -
  have a: "(cid r \<in> cid ` D) = (r \<in> D)" if "r \<in> set rows" for r
  proof
    assume "cid r \<in> cid ` D"
    then obtain q where q: "q \<in> D" "cid r = cid q" by blast
    then have "r = q" using unique_ids_eq[OF U that, of q] D(2) by blast
    then show "r \<in> D" using q(1) by simp
  next
    assume "r \<in> D"
    then show "cid r \<in> cid ` D" by blast
  qed
  have b: "(case linkedId r of None \<Rightarrow> False | Some l \<Rightarrow> l \<in> cid ` D)
            = (\<exists>q\<in>D. linkedId r = Some (cid q))" for r
    by (cases "linkedId r") auto
  have sl: "set_link now secondary (Some (cid S))
      = (\<lambda>r. r\<lparr>linkedId := Some (cid S), linkPrecedence := secondary, updatedAt := now\<rparr>)"
    by (rule ext) (simp add: set_link_def)
  have o: "set (map cid others) = cid ` D" using D(1) by simp
  have m: "mergePrimaryContacts rows now (S # others) =
     write_rows rows
       (\<lambda>r. cid r \<in> cid ` D \<or> (case linkedId r of None \<Rightarrow> False | Some l \<Rightarrow> l \<in> cid ` D))
       (\<lambda>r. r\<lparr>linkedId := Some (cid S), linkPrecedence := secondary, updatedAt := now\<rparr>)"
    by (simp only: mergePrimaryContacts_def Let_def sl list.sel o)
  have c: "write_rows rows
       (\<lambda>r. cid r \<in> cid ` D \<or> (case linkedId r of None \<Rightarrow> False | Some l \<Rightarrow> l \<in> cid ` D))
       (\<lambda>r. r\<lparr>linkedId := Some (cid S), linkPrecedence := secondary, updatedAt := now\<rparr>)
     = write_rows rows (\<lambda>r. r \<in> D \<or> (\<exists>q\<in>D. linkedId r = Some (cid q)))
       (\<lambda>r. r\<lparr>linkedId := Some (cid S), linkPrecedence := secondary, updatedAt := now\<rparr>)"
    unfolding b by (rule write_rows_cong) (simp_all only: a)
  show ?thesis unfolding m unfolding c by (simp only: write_rows_def)
qed

lemma no_chain:
  assumes U: "unique_ids T" and I1: "inv_primary_unlinked T" and I2: "inv_secondary_linked T"
    and c: "c \<in> set T" and d: "d \<in> set T" and l: "linkedId c = Some (cid d)"
  shows "linkPrecedence d = primary \<and> linkedId d = None"
proof -
  have "linkPrecedence c \<noteq> primary" using I1 c l unfolding inv1_iff by auto
  then have "linkPrecedence c = secondary" by (simp add: not_primary)
  then obtain p where p: "p \<in> set T" "linkedId c = Some (cid p)" "linkPrecedence p = primary"
    using I2 c unfolding inv2_iff by blast
  have "cid p = cid d" using p(2) l by simp
  then have "p = d" using unique_ids_eq[OF U p(1) d] by simp
  then have "linkPrecedence d = primary" using p(3) by simp
  then show ?thesis using I1 d unfolding inv1_iff by blast
qed

text \<open>
  C1 as the claim states it ("for every storage state") fails on a table that breaks one
  of the two invariants. On \<open>linked_primary_store\<close> (invariant 1 broken) the request reaches
  the primaries 2 and 3, contact 2 is the oldest and contact 3 is demoted, but the response
  names contact 1, which is marked primary and linked to contact 2 and comes first in the
  cluster. On \<open>chain_store\<close> (invariant 2 broken) the request reaches the primaries 1 and 2;
  contact 2 and contact 3, which is linked to it, are demoted and linked to contact 1, but
  contact 4 stays linked to contact 3, now a secondary of contact 1: a chain of two hops
  survives, contact 4 is not in the cluster of the response, and its phone number is
  stored once more, in the new contact 5.
\<close>

theorem C1_any_store_counterexample:
  "unique_ids linked_primary_store \<and> inv_secondary_linked linked_primary_store
   \<and> fetchPrimaryContacts linked_primary_store
      (findAllPrimaryContactIds linked_primary_store
         (findMatchingContacts linked_primary_store (Some ''b@x.com'') (Some ''111'')))
     = [mkContact 2 (Some ''a@x.com'') (Some ''111'') None primary 2,
        mkContact 3 (Some ''b@x.com'') (Some ''222'') None primary 3]
   \<and> snd (identify linked_primary_store 100 (Some ''b@x.com'') (Some ''111''))
       = Inr \<lparr>primaryContactId = 1, emails = [''x@x.com'', ''a@x.com'', ''b@x.com''],
              phoneNumbers = [''000'', ''111'', ''222''], secondaryContactIds = [2, 3]\<rparr>
   \<and> unique_ids chain_store \<and> inv_primary_unlinked chain_store
   \<and> fetchPrimaryContacts chain_store
      (findAllPrimaryContactIds chain_store
         (findMatchingContacts chain_store (Some ''a@x.com'') (Some ''444'')))
     = [mkContact 1 (Some ''a@x.com'') (Some ''111'') None primary 1,
        mkContact 2 (Some ''b@x.com'') (Some ''222'') None primary 2]
   \<and> identify chain_store 100 (Some ''a@x.com'') (Some ''444'')
       = ([mkContact 1 (Some ''a@x.com'') (Some ''111'') None primary 1,
           mkContact 4 (Some ''d@x.com'') (Some ''444'') (Some 3) secondary 4,
           (mkContact 2 (Some ''b@x.com'') (Some ''222'') (Some 1) secondary 2)\<lparr>updatedAt := 100\<rparr>,
           (mkContact 3 (Some ''c@x.com'') (Some ''333'') (Some 1) secondary 3)\<lparr>updatedAt := 100\<rparr>,
           mkContact 5 (Some ''a@x.com'') (Some ''444'') (Some 1) secondary 100],
          Inr \<lparr>primaryContactId = 1, emails = [''a@x.com'', ''b@x.com'', ''c@x.com''],
               phoneNumbers = [''111'', ''222'', ''333'', ''444''],
               secondaryContactIds = [2, 3, 5]\<rparr>)"
  by code_simp

text \<open>
  C1, amended. On a table with unique ids that satisfies invariants 1 and 2, when two or
  more distinct primary contacts are reachable from the matched contacts, identify writes
  one batch: every reachable primary other than the survivor \<open>S\<close>, a reachable primary of
  earliest createdAt, and every contact whose linkedId is the id of one of those, gets
  linkPrecedence secondary and linkedId \<open>S\<close>'s id; no other row changes, and the written
  rows are scanned after the others (at most one new secondary, linked to \<open>S\<close>, is
  appended). The response's primaryContactId is \<open>S\<close>'s id. Afterwards every demoted contact
  is secondary with linkedId \<open>S\<close>'s id, and no contact of the table is linked to a contact
  that is itself linked: no chain of more than one hop survives.
\<close>

theorem C1_merge_demotes:
  assumes U: "unique_ids rows" and I1: "inv_primary_unlinked rows"
    and I2: "inv_secondary_linked rows"
    and two: "p1 \<in> reachable_primaries rows (findMatchingContacts rows em ph)"
      "p2 \<in> reachable_primaries rows (findMatchingContacts rows em ph)" "p1 \<noteq> p2"
  shows "\<exists>S new.
      S \<in> reachable_primaries rows (findMatchingContacts rows em ph)
    \<and> (\<forall>p\<in>reachable_primaries rows (findMatchingContacts rows em ph). createdAt S \<le> createdAt p)
    \<and> fst (identify rows now em ph) =
        filter (\<lambda>r. \<not> (r \<in> reachable_primaries rows (findMatchingContacts rows em ph) - {S}
                    \<or> (\<exists>q\<in>reachable_primaries rows (findMatchingContacts rows em ph) - {S}.
                          linkedId r = Some (cid q)))) rows
        @ map (\<lambda>r. r\<lparr>linkedId := Some (cid S), linkPrecedence := secondary, updatedAt := now\<rparr>)
            (filter (\<lambda>r. r \<in> reachable_primaries rows (findMatchingContacts rows em ph) - {S}
                    \<or> (\<exists>q\<in>reachable_primaries rows (findMatchingContacts rows em ph) - {S}.
                          linkedId r = Some (cid q))) rows)
        @ new
    \<and> length new \<le> 1
    \<and> (\<forall>n\<in>set new. linkPrecedence n = secondary \<and> linkedId n = Some (cid S))
    \<and> (\<exists>r. snd (identify rows now em ph) = Inr r \<and> primaryContactId r = cid S)
    \<and> (\<forall>c\<in>set (fst (identify rows now em ph)). \<forall>r\<in>set rows.
          cid c = cid r
          \<and> (r \<in> reachable_primaries rows (findMatchingContacts rows em ph) - {S}
               \<or> (\<exists>q\<in>reachable_primaries rows (findMatchingContacts rows em ph) - {S}.
                     linkedId r = Some (cid q)))
          \<longrightarrow> linkPrecedence c = secondary \<and> linkedId c = Some (cid S))
    \<and> (\<forall>c\<in>set (fst (identify rows now em ph)). \<forall>d\<in>set (fst (identify rows now em ph)).
          linkedId c = Some (cid d) \<longrightarrow> linkPrecedence d = primary \<and> linkedId d = None)"
proof -
  let ?M = "findMatchingContacts rows em ph"
  let ?RP = "reachable_primaries rows ?M"
  have M: "set ?M \<subseteq> set rows" by (rule findMatching_subset)
  have RPsub: "?RP \<subseteq> set rows" using reachable_primaries_rows[OF M] .
  obtain S others where P: "fetchPrimaryContacts rows (findAllPrimaryContactIds rows ?M) = S # others"
    and ne: "others \<noteq> []" and oth: "set others = ?RP - {S}" and S_RP: "S \<in> ?RP"
    and oldest: "\<forall>p\<in>?RP. createdAt S \<le> createdAt p"
    using fetch_two[OF U M two] by blast
  let ?D = "?RP - {S}"
  let ?dem = "\<lambda>r. r \<in> ?D \<or> (\<exists>q\<in>?D. linkedId r = Some (cid q))"
  let ?w = "\<lambda>r. r\<lparr>linkedId := Some (cid S), linkPrecedence := secondary, updatedAt := now\<rparr>"
  let ?g = "\<lambda>r. if ?dem r then ?w r else r"
  let ?T = "filter (\<lambda>r. \<not> ?dem r) rows @ map ?w (filter ?dem rows)"
  have Mne: "?M \<noteq> []"
  proof
    assume "?M = []"
    then have "?RP = {}" by (simp add: reachable_primaries_def)
    then show False using S_RP by simp
  qed
  have res: "resolvePrimaryContact rows now ?M = Inr (mergePrimaryContacts rows now (S # others), S)"
    using P ne by (simp add: resolvePrimaryContact_def Let_def)
  have merged: "mergePrimaryContacts rows now (S # others) = ?T"
    using merge_as_demotion[OF U oth, of now S] RPsub by blast
  have setT: "set ?T = ?g ` set rows"
    using set_write_rows[of rows ?dem ?w] unfolding write_rows_def .
  have sub: "set (S # others) \<subseteq> set rows" using oth S_RP RPsub by auto
  have prim: "\<forall>p\<in>set (S # others). linkPrecedence p = primary"
    using oth S_RP unfolding reachable_primaries_def by auto
  have d: "distinct (map cid (S # others))"
    using fetch_distinct[OF U, of "findAllPrimaryContactIds rows ?M"] unfolding P .
  have inv: "unique_ids ?T" "inv_primary_unlinked ?T" "inv_secondary_linked ?T" "S \<in> set ?T"
    using merge_inv[OF U I1 sub prim d, of now] I2 unfolding merged by blast+
  have Sprim: "linkPrecedence S = primary" using prim by simp
  let ?new = "if shouldCreateSecondaryContact (getAllRelatedContacts ?T (cid S)) em ph
              then [new_secondary ?T now em ph (cid S)] else []"
  have idn: "identify rows now em ph =
      (?T @ ?new, buildResponseFromContacts (getAllRelatedContacts ?T (cid S) @ ?new))"
    using identify_matched[OF Mne res] unfolding merged by (simp add: Let_def)
  have new_props: "length ?new \<le> 1"
    "\<forall>n\<in>set ?new. linkPrecedence n = secondary \<and> linkedId n = Some (cid S)"
    by (simp_all add: new_secondary_def)
  have extra: "\<forall>n\<in>set ?new. linkPrecedence n \<noteq> primary" using new_props(2) by auto
  have resp: "\<exists>r. snd (identify rows now em ph) = Inr r \<and> primaryContactId r = cid S"
    using response_primary[OF inv(1,2,4) Sprim extra] unfolding idn by simp
  have after: "linkPrecedence c = secondary \<and> linkedId c = Some (cid S)"
    if c: "c \<in> set (?T @ ?new)" and r: "r \<in> set rows" "cid c = cid r" "?dem r" for c r
  proof (cases "c \<in> set ?new")
    case True
    then show ?thesis using new_props(2) by blast
  next
    case False
    then have "c \<in> set ?T" using c unfolding set_append by blast
    then have "c \<in> ?g ` set rows" unfolding setT .
    then obtain r0 where r0: "r0 \<in> set rows" "c = ?g r0" by blast
    have "cid (?g r0) = cid r0" by simp
    then have "cid r0 = cid r" using r0(2) r(2) by simp
    then have "r0 = r" using unique_ids_eq[OF U r0(1) r(1)] by simp
    then have "c = ?w r" using r0(2) r(3) by simp
    then show ?thesis by simp
  qed
  have fst_eq: "fst (identify rows now em ph) = ?T @ ?new" unfolding idn by simp
  have fst_eq': "fst (identify rows now em ph)
      = filter (\<lambda>r. \<not> ?dem r) rows @ map ?w (filter ?dem rows) @ ?new"
    unfolding fst_eq by simp
  have invF: "unique_ids (?T @ ?new) \<and> inv_primary_unlinked (?T @ ?new)
      \<and> inv_secondary_linked (?T @ ?new)"
  proof (cases "shouldCreateSecondaryContact (getAllRelatedContacts ?T (cid S)) em ph")
    case True
    have n: "cid (new_secondary ?T now em ph (cid S)) = next_id ?T" by (simp add: new_secondary_def)
    have link: "(linkPrecedence (new_secondary ?T now em ph (cid S)) = primary
          \<and> linkedId (new_secondary ?T now em ph (cid S)) = None)
        \<or> (linkPrecedence (new_secondary ?T now em ph (cid S)) = secondary
          \<and> (\<exists>p\<in>set ?T. linkedId (new_secondary ?T now em ph (cid S)) = Some (cid p)
                \<and> linkPrecedence p = primary))"
      using inv(4) Sprim by (auto simp: new_secondary_def)
    show ?thesis using append_row_inv[OF inv(1,2,3) n link] True by simp
  next
    case False
    then show ?thesis using inv by simp
  qed
  have flat: "linkPrecedence d = primary \<and> linkedId d = None"
    if "c \<in> set (?T @ ?new)" "d \<in> set (?T @ ?new)" "linkedId c = Some (cid d)" for c d
    using no_chain[of "?T @ ?new" c d] invF that by blast
  show ?thesis
  proof (intro exI[of _ S] exI[of _ ?new] conjI)
    show "S \<in> ?RP" by (rule S_RP)
    show "\<forall>p\<in>?RP. createdAt S \<le> createdAt p" by (rule oldest)
    show "fst (identify rows now em ph)
      = filter (\<lambda>r. \<not> ?dem r) rows @ map ?w (filter ?dem rows) @ ?new" by (rule fst_eq')
    show "length ?new \<le> 1" by (rule new_props(1))
    show "\<forall>n\<in>set ?new. linkPrecedence n = secondary \<and> linkedId n = Some (cid S)"
      by (rule new_props(2))
    show "\<exists>r. snd (identify rows now em ph) = Inr r \<and> primaryContactId r = cid S" by (rule resp)
    show "\<forall>c\<in>set (fst (identify rows now em ph)). \<forall>r\<in>set rows.
          cid c = cid r \<and> ?dem r \<longrightarrow> linkPrecedence c = secondary \<and> linkedId c = Some (cid S)"
      unfolding fst_eq using after by blast
    show "\<forall>c\<in>set (fst (identify rows now em ph)). \<forall>d\<in>set (fst (identify rows now em ph)).
          linkedId c = Some (cid d) \<longrightarrow> linkPrecedence d = primary \<and> linkedId d = None"
      unfolding fst_eq using flat by blast
  qed
qed

theorem C1_merge_demotes_witness:
  "unique_ids merge_cluster_store \<and> inv_primary_unlinked merge_cluster_store
   \<and> inv_secondary_linked merge_cluster_store
   \<and> mkContact 1 (Some ''a@x.com'') (Some ''111'') None primary 1
        \<in> reachable_primaries merge_cluster_store
            (findMatchingContacts merge_cluster_store (Some ''b@x.com'') (Some ''111''))
   \<and> mkContact 2 (Some ''b@x.com'') (Some ''222'') None primary 2
        \<in> reachable_primaries merge_cluster_store
            (findMatchingContacts merge_cluster_store (Some ''b@x.com'') (Some ''111''))
   \<and> mkContact 1 (Some ''a@x.com'') (Some ''111'') None primary 1
        \<noteq> mkContact 2 (Some ''b@x.com'') (Some ''222'') None primary 2
   \<and> (\<exists>S \<in> reachable_primaries merge_cluster_store
              (findMatchingContacts merge_cluster_store (Some ''b@x.com'') (Some ''111'')).
         \<exists>r. snd (identify merge_cluster_store 100 (Some ''b@x.com'') (Some ''111'')) = Inr r
              \<and> primaryContactId r = cid S)
   \<and> identify merge_cluster_store 100 (Some ''b@x.com'') (Some ''111'')
       = ([mkContact 1 (Some ''a@x.com'') (Some ''111'') None primary 1,
           mkContact 4 (Some ''a@x.com'') (Some ''444'') (Some 1) secondary 4,
           (mkContact 2 (Some ''b@x.com'') (Some ''222'') (Some 1) secondary 2)\<lparr>updatedAt := 100\<rparr>,
           (mkContact 3 (Some ''c@x.com'') (Some ''222'') (Some 1) secondary 3)\<lparr>updatedAt := 100\<rparr>],
          Inr \<lparr>primaryContactId = 1, emails = [''a@x.com'', ''b@x.com'', ''c@x.com''],
               phoneNumbers = [''111'', ''444'', ''222''], secondaryContactIds = [4, 2, 3]\<rparr>)"
proof -
  let ?c1 = "mkContact 1 (Some ''a@x.com'') (Some ''111'') None primary 1"
  let ?c2 = "mkContact 2 (Some ''b@x.com'') (Some ''222'') None primary 2"
  let ?M = "findMatchingContacts merge_cluster_store (Some ''b@x.com'') (Some ''111'')"
  have U: "unique_ids merge_cluster_store" by code_simp
  have I1: "inv_primary_unlinked merge_cluster_store" by code_simp
  have I2: "inv_secondary_linked merge_cluster_store" by code_simp
  have fm: "?M = [?c1, ?c2]" by code_simp
  have p1: "?c1 \<in> reachable_primaries merge_cluster_store ?M"
    unfolding fm reachable_primaries_def
    using reaches_here[of merge_cluster_store ?c1] by (simp add: mkContact_def)
  have p2: "?c2 \<in> reachable_primaries merge_cluster_store ?M"
    unfolding fm reachable_primaries_def
    using reaches_here[of merge_cluster_store ?c2] by (simp add: mkContact_def)
  have ne: "?c1 \<noteq> ?c2" by (simp add: mkContact_def)
  have ex: "\<exists>S \<in> reachable_primaries merge_cluster_store ?M.
         \<exists>r. snd (identify merge_cluster_store 100 (Some ''b@x.com'') (Some ''111'')) = Inr r
              \<and> primaryContactId r = cid S"
    using C1_merge_demotes[OF U I1 I2 p1 p2 ne, of 100] by blast
  have run: "identify merge_cluster_store 100 (Some ''b@x.com'') (Some ''111'')
       = ([?c1,
           mkContact 4 (Some ''a@x.com'') (Some ''444'') (Some 1) secondary 4,
           (mkContact 2 (Some ''b@x.com'') (Some ''222'') (Some 1) secondary 2)\<lparr>updatedAt := 100\<rparr>,
           (mkContact 3 (Some ''c@x.com'') (Some ''222'') (Some 1) secondary 3)\<lparr>updatedAt := 100\<rparr>],
          Inr \<lparr>primaryContactId = 1, emails = [''a@x.com'', ''b@x.com'', ''c@x.com''],
               phoneNumbers = [''111'', ''444'', ''222''], secondaryContactIds = [4, 2, 3]\<rparr>)"
    by code_simp
  show ?thesis using U I1 I2 p1 p2 ne ex run by blast
qed

section \<open>Orphan recovery\<close>

lemma build_nonempty:
  "contacts \<noteq> [] \<Longrightarrow> \<exists>r. buildResponseFromContacts contacts = Inr r"
  using pickPrimary_nonempty[of contacts] build_with_primary[of contacts] by blast

lemma reaches_no_parent: "reaches rows c e \<Longrightarrow> parent_of rows c = None \<Longrightarrow> e = c"
  by (induction rule: reaches.induct) auto

text \<open>
  C2 as the claim states it fails on a table that breaks invariant 1: the request matches
  contact 2 alone, no primary contact is reachable from it, and contact 2 is promoted; but
  contact 1, which is marked primary and linked to contact 2, is scanned first in the
  cluster of contact 2, and the view is built on contact 1, with the promoted contact
  among its secondaries.
\<close>

theorem C2_linked_primary_counterexample:
  "unique_ids linked_orphan_store
   \<and> findMatchingContacts linked_orphan_store (Some ''o@x.com'') None
       = [mkContact 2 (Some ''o@x.com'') (Some ''555'') (Some 999) secondary 2]
   \<and> fetchPrimaryContacts linked_orphan_store
        (findAllPrimaryContactIds linked_orphan_store
           (findMatchingContacts linked_orphan_store (Some ''o@x.com'') None)) = []
   \<and> identify linked_orphan_store 100 (Some ''o@x.com'') None
       = ([mkContact 1 (Some ''z@x.com'') (Some ''000'') (Some 2) primary 1,
           (mkContact 2 (Some ''o@x.com'') (Some ''555'') None primary 2)\<lparr>updatedAt := 100\<rparr>],
          Inr \<lparr>primaryContactId = 1, emails = [''z@x.com'', ''o@x.com''],
               phoneNumbers = [''000'', ''555''], secondaryContactIds = [2]\<rparr>)"
  by code_simp

text \<open>
  C2, amended. On a table with unique ids in which no primary contact has linkedId set,
  when the request matches contacts and no primary contact is reachable from them,
  resolution raises no error: it takes the oldest matched contact by createdAt (the first
  of the matches sorted by createdAt, which is not primary) and writes linkPrecedence
  primary and linkedId null into its row; the other rows stay as they are and the written
  row is scanned after them. identify then returns the view built from the cluster of that
  contact (with the new secondary, when one is created), and the view's primaryContactId
  is that contact's id.
\<close>

theorem C2_orphan_recovery:
  assumes U: "unique_ids rows" and I1: "inv_primary_unlinked rows"
    and Mne: "findMatchingContacts rows em ph \<noteq> []"
    and none: "reachable_primaries rows (findMatchingContacts rows em ph) = {}"
  shows "\<exists>X new.
      X = hd (sort_key createdAt (findMatchingContacts rows em ph))
    \<and> X \<in> set (findMatchingContacts rows em ph)
    \<and> (\<forall>m\<in>set (findMatchingContacts rows em ph). createdAt X \<le> createdAt m)
    \<and> linkPrecedence X \<noteq> primary
    \<and> resolvePrimaryContact rows now (findMatchingContacts rows em ph) =
        Inr (filter (\<lambda>r. cid r \<noteq> cid X) rows
               @ [X\<lparr>linkedId := None, linkPrecedence := primary, updatedAt := now\<rparr>],
             X\<lparr>linkedId := None, linkPrecedence := primary, updatedAt := now\<rparr>)
    \<and> fst (identify rows now em ph) =
        filter (\<lambda>r. cid r \<noteq> cid X) rows
          @ [X\<lparr>linkedId := None, linkPrecedence := primary, updatedAt := now\<rparr>] @ new
    \<and> length new \<le> 1
    \<and> (\<forall>n\<in>set new. linkPrecedence n = secondary \<and> linkedId n = Some (cid X))
    \<and> (\<exists>r. snd (identify rows now em ph) = Inr r
           \<and> buildResponseFromContacts
                (getAllRelatedContacts
                   (filter (\<lambda>r. cid r \<noteq> cid X) rows
                      @ [X\<lparr>linkedId := None, linkPrecedence := primary, updatedAt := now\<rparr>])
                   (cid X) @ new) = Inr r
           \<and> primaryContactId r = cid X)"
proof -
  let ?M = "findMatchingContacts rows em ph"
  have M: "set ?M \<subseteq> set rows" by (rule findMatching_subset)
  have "set (fetchPrimaryContacts rows (findAllPrimaryContactIds rows ?M)) = {}"
    using fetch_reachable[OF U M] none by simp
  then have P: "fetchPrimaryContacts rows (findAllPrimaryContactIds rows ?M) = []" by simp
  have "sort_key createdAt ?M \<noteq> []" using Mne by (metis length_0_conv length_sort)
  then obtain X cs where s: "sort_key createdAt ?M = X # cs"
    by (cases "sort_key createdAt ?M") auto
  have hdX: "hd (sort_key createdAt ?M) = X" using s by simp
  have X_M: "X \<in> set ?M" using sort_key_hd_min[OF Mne, of createdAt] unfolding hdX by blast
  have oldest: "\<forall>m\<in>set ?M. createdAt X \<le> createdAt m"
    using sort_key_hd_min[OF Mne, of createdAt] unfolding hdX by blast
  have X_rows: "X \<in> set rows" using X_M M by blast
  have notprim: "linkPrecedence X \<noteq> primary"
  proof
    assume "linkPrecedence X = primary"
    then have "X \<in> reachable_primaries rows ?M"
      unfolding reachable_primaries_def using X_M reaches_here[of rows X] by blast
    then show False using none by simp
  qed
  let ?p = "X\<lparr>linkedId := None, linkPrecedence := primary, updatedAt := now\<rparr>"
  let ?T = "filter (\<lambda>r. cid r \<noteq> cid X) rows @ [?p]"
  have sl: "set_link now primary None X = ?p" by (simp add: set_link_def)
  have upd: "update_contact rows now (cid X) primary None = Inr (?T, ?p)"
    and U1: "unique_ids ?T"
    and I1': "inv_primary_unlinked ?T"
    and p_in: "?p \<in> set ?T"
    using promote_inv[OF U X_rows notprim, of now] I1 unfolding sl by auto
  have res: "resolvePrimaryContact rows now ?M = Inr (?T, ?p)"
    using P s notprim upd
    by (simp add: resolvePrimaryContact_def handleOrphanedSecondaries_def Let_def)
  let ?new = "if shouldCreateSecondaryContact (getAllRelatedContacts ?T (cid X)) em ph
              then [new_secondary ?T now em ph (cid X)] else []"
  have idn: "identify rows now em ph =
      (?T @ ?new, buildResponseFromContacts (getAllRelatedContacts ?T (cid X) @ ?new))"
    using identify_matched[OF Mne res] by (simp add: Let_def)
  have new_props: "length ?new \<le> 1"
    "\<forall>n\<in>set ?new. linkPrecedence n = secondary \<and> linkedId n = Some (cid X)"
    by (simp_all add: new_secondary_def)
  have extra: "\<forall>n\<in>set ?new. linkPrecedence n \<noteq> primary" using new_props(2) by auto
  have pp: "linkPrecedence ?p = primary" by simp
  obtain r where r: "buildResponseFromContacts (getAllRelatedContacts ?T (cid ?p) @ ?new) = Inr r"
      "primaryContactId r = cid ?p"
    using response_primary[OF U1 I1' p_in pp extra] by blast
  have r': "buildResponseFromContacts (getAllRelatedContacts ?T (cid X) @ ?new) = Inr r"
      "primaryContactId r = cid X"
    using r by simp_all
  have fst_eq: "fst (identify rows now em ph)
      = filter (\<lambda>r. cid r \<noteq> cid X) rows @ [?p] @ ?new" unfolding idn by simp
  have resp: "\<exists>r. snd (identify rows now em ph) = Inr r
           \<and> buildResponseFromContacts (getAllRelatedContacts ?T (cid X) @ ?new) = Inr r
           \<and> primaryContactId r = cid X"
    unfolding idn using r' by simp
  show ?thesis
  proof (intro exI[of _ X] exI[of _ ?new] conjI)
    show "X = hd (sort_key createdAt ?M)" using hdX by simp
    show "X \<in> set ?M" by (rule X_M)
    show "\<forall>m\<in>set ?M. createdAt X \<le> createdAt m" by (rule oldest)
    show "linkPrecedence X \<noteq> primary" by (rule notprim)
    show "resolvePrimaryContact rows now ?M = Inr (?T, ?p)" by (rule res)
    show "fst (identify rows now em ph) = filter (\<lambda>r. cid r \<noteq> cid X) rows @ [?p] @ ?new"
      by (rule fst_eq)
    show "length ?new \<le> 1" by (rule new_props(1))
    show "\<forall>n\<in>set ?new. linkPrecedence n = secondary \<and> linkedId n = Some (cid X)"
      by (rule new_props(2))
    show "\<exists>r. snd (identify rows now em ph) = Inr r
           \<and> buildResponseFromContacts (getAllRelatedContacts ?T (cid X) @ ?new) = Inr r
           \<and> primaryContactId r = cid X" by (rule resp)
  qed
qed

theorem C2_orphan_recovery_witness:
  "unique_ids orphan_store \<and> inv_primary_unlinked orphan_store
   \<and> findMatchingContacts orphan_store (Some ''test@example.com'') (Some ''555-9999'') \<noteq> []
   \<and> reachable_primaries orphan_store
        (findMatchingContacts orphan_store (Some ''test@example.com'') (Some ''555-9999'')) = {}
   \<and> (\<exists>X\<in>set (findMatchingContacts orphan_store (Some ''test@example.com'') (Some ''555-9999'')).
        \<exists>r. snd (identify orphan_store 100 (Some ''test@example.com'') (Some ''555-9999'')) = Inr r
             \<and> primaryContactId r = cid X)
   \<and> identify orphan_store 100 (Some ''test@example.com'') (Some ''555-9999'')
       = ([mkContact 101 (Some ''test@example.com'') (Some ''555-9999'') (Some 999) secondary 2,
           (mkContact 100 (Some ''test@example.com'') (Some ''555-9999'') None primary 1)
              \<lparr>updatedAt := 100\<rparr>],
          Inr \<lparr>primaryContactId = 100, emails = [''test@example.com''],
               phoneNumbers = [''555-9999''], secondaryContactIds = []\<rparr>)"
proof -
  let ?M = "findMatchingContacts orphan_store (Some ''test@example.com'') (Some ''555-9999'')"
  have U: "unique_ids orphan_store" by code_simp
  have I1: "inv_primary_unlinked orphan_store" by code_simp
  have fm: "?M = orphan_store" by code_simp
  have Mne: "?M \<noteq> []" by code_simp
  have np: "\<forall>m\<in>set orphan_store. parent_of orphan_store m = None \<and> linkPrecedence m = secondary"
    by code_simp
  have "linkPrecedence p \<noteq> primary" if "m \<in> set orphan_store" "reaches orphan_store m p" for m p
  proof -
    have m: "parent_of orphan_store m = None" "linkPrecedence m = secondary"
      using np that(1) by (metis)+
    have "p = m" using reaches_no_parent[OF that(2) m(1)] .
    then show ?thesis using m(2) by simp
  qed
  then have none: "reachable_primaries orphan_store ?M = {}"
    unfolding fm reachable_primaries_def by blast
  have ex: "\<exists>X\<in>set ?M.
        \<exists>r. snd (identify orphan_store 100 (Some ''test@example.com'') (Some ''555-9999'')) = Inr r
             \<and> primaryContactId r = cid X"
    using C2_orphan_recovery[OF U I1 Mne none, of 100] by blast
  have run: "identify orphan_store 100 (Some ''test@example.com'') (Some ''555-9999'')
       = ([mkContact 101 (Some ''test@example.com'') (Some ''555-9999'') (Some 999) secondary 2,
           (mkContact 100 (Some ''test@example.com'') (Some ''555-9999'') None primary 1)
              \<lparr>updatedAt := 100\<rparr>],
          Inr \<lparr>primaryContactId = 100, emails = [''test@example.com''],
               phoneNumbers = [''555-9999''], secondaryContactIds = []\<rparr>)"
    by code_simp
  show ?thesis using U I1 Mne none ex run by blast
qed

section \<open>Repeating a request\<close>

lemma parent_of_primary: "linkPrecedence c = primary \<Longrightarrow> parent_of rows c = None"
  by (simp add: parent_of_def)

lemma parent_of_linked:
  assumes "unique_ids rows" "p \<in> set rows" "linkPrecedence m = secondary"
    "linkedId m = Some (cid p)" "cid p \<noteq> 0"
  shows "parent_of rows m = Some p"
  using assms findUnique_unique[OF assms(1,2)] by (simp add: parent_of_def)

lemma settled_reachable:
  assumes U: "unique_ids rows" and S: "settled rows p M"
  shows "reachable_primaries rows M = {p}"
proof -
  have p: "p \<in> set rows" "linkPrecedence p = primary" using S unfolding settled_def by blast+
  have shape: "m = p \<or> (linkPrecedence m = secondary
                \<and> (linkedId m = Some (cid p) \<or> linkedId m = Some 0))" if "m \<in> set M" for m
    using S that unfolding settled_def by blast
  have reach: "p \<in> set M
          \<or> (\<exists>m\<in>set M. linkPrecedence m = secondary \<and> linkedId m = Some (cid p) \<and> cid p \<noteq> 0)"
    using S unfolding settled_def by blast
  have only: "q = p" if q: "q \<in> reachable_primaries rows M" for q
  proof -
    obtain m where m: "m \<in> set M" "reaches rows m q" and qp: "linkPrecedence q = primary"
      using q unfolding reachable_primaries_def by blast
    from m(2) show ?thesis
    proof (cases rule: reaches.cases)
      case reaches_here
      then have "linkPrecedence m = primary" using qp by simp
      then have "m = p" using shape[OF m(1)] by auto
      then show ?thesis using reaches_here by simp
    next
      case (reaches_up d)
      have np: "linkPrecedence m \<noteq> primary" "truthy_num (linkedId m)"
        using reaches_up(1) by (auto simp: parent_of_def split: if_splits)
      then have "linkedId m = Some (cid p)" "linkPrecedence m = secondary" "cid p \<noteq> 0"
        using shape[OF m(1)] p(2) by auto
      then have "parent_of rows m = Some p" using parent_of_linked[OF U p(1)] by blast
      then have "d = p" using reaches_up(1) by simp
      then have "reaches rows p q" using reaches_up(2) by simp
      then show ?thesis using reaches_no_parent[OF _ parent_of_primary[OF p(2)]] by blast
    qed
  qed
  have p_in: "p \<in> reachable_primaries rows M"
  proof -
    have "\<exists>m\<in>set M. reaches rows m p"
    proof (cases "p \<in> set M")
      case True
      then show ?thesis using reaches_here by blast
    next
      case False
      then obtain m where m: "m \<in> set M" "linkPrecedence m = secondary"
        "linkedId m = Some (cid p)" "cid p \<noteq> 0" using reach by blast
      have "parent_of rows m = Some p" using parent_of_linked[OF U p(1) m(2,3,4)] .
      then have "reaches rows m p" using reaches_up[OF _ reaches_here] by blast
      then show ?thesis using m(1) by blast
    qed
    then show ?thesis using p(2) unfolding reachable_primaries_def by blast
  qed
  show ?thesis using only p_in by blast
qed

lemma singleton_list: "set xs = {p} \<Longrightarrow> distinct xs \<Longrightarrow> xs = [p]"
proof (cases xs)
  case Nil
  assume "set xs = {p}"
  then show ?thesis using Nil by simp
next
  case (Cons a as)
  assume s: "set xs = {p}" and d: "distinct xs"
  have "a = p" using s Cons by auto
  moreover have "set as \<subseteq> {p}" "a \<notin> set as" using s d Cons by auto
  ultimately have "as = []" by (cases as) auto
  then show ?thesis using Cons \<open>a = p\<close> by simp
qed

lemma resolve_fixed:
  assumes U: "unique_ids rows" and S: "settled rows p M"
  shows "resolvePrimaryContact rows now M = Inr (rows, p)"
proof -
  have M: "set M \<subseteq> set rows" using S unfolding settled_def by blast
  let ?P = "fetchPrimaryContacts rows (findAllPrimaryContactIds rows M)"
  have "set ?P = {p}" using fetch_reachable[OF U M] settled_reachable[OF U S] by simp
  moreover have "distinct ?P" using fetch_distinct[OF U, of "findAllPrimaryContactIds rows M"]
    by (metis distinct_map)
  ultimately have "?P = [p]" by (rule singleton_list)
  then show ?thesis by (simp add: resolvePrimaryContact_def Let_def)
qed

lemma cond_holds_fields:
  "email c' = email c \<Longrightarrow> phoneNumber c' = phoneNumber c \<Longrightarrow> cond_holds c' k = cond_holds c k"
  by (cases k) auto

lemma findMatching_map:
  assumes "\<And>r. email (g r) = email r" "\<And>r. phoneNumber (g r) = phoneNumber r"
  shows "findMatchingContacts (map g rows) em ph = map g (findMatchingContacts rows em ph)"
proof -
  have "list_ex (cond_holds (g c)) ks = list_ex (cond_holds c) ks" for c ks
    using cond_holds_fields[OF assms(1) assms(2)] by (simp add: list_ex_iff)
  then show ?thesis
    by (simp add: findMatchingContacts_def findMany_OR_def filter_map comp_def)
qed

lemma findMatching_set_cong:
  "set a = set b \<Longrightarrow> set (findMatchingContacts a em ph) = set (findMatchingContacts b em ph)"
  by (simp add: findMatchingContacts_def findMany_OR_def)

lemma fetch_cons:
  assumes U: "unique_ids rows" and M: "set M \<subseteq> set rows"
    and P: "fetchPrimaryContacts rows (findAllPrimaryContactIds rows M) = S # others"
  shows "set others = reachable_primaries rows M - {S}" "S \<in> reachable_primaries rows M"
    "set (S # others) \<subseteq> set rows" "\<forall>c\<in>set (S # others). linkPrecedence c = primary"
    "distinct (map cid (S # others))"
proof -
  have setP: "set (S # others) = reachable_primaries rows M"
    using fetch_reachable[OF U M] unfolding P .
  show d: "distinct (map cid (S # others))"
    using fetch_distinct[OF U, of "findAllPrimaryContactIds rows M"] unfolding P .
  then have "S \<notin> set others" by auto
  then show "set others = reachable_primaries rows M - {S}" using setP by auto
  show "S \<in> reachable_primaries rows M" using setP by auto
  show "set (S # others) \<subseteq> set rows"
    using reachable_primaries_rows[OF M] unfolding setP .
  show "\<forall>c\<in>set (S # others). linkPrecedence c = primary"
    unfolding setP reachable_primaries_def by blast
qed

lemma orphan_resolve:
  assumes U: "unique_ids rows" and M: "set M \<subseteq> set rows" "M \<noteq> []"
    and none: "reachable_primaries rows M = {}"
  shows "\<exists>X rows1. X \<in> set M \<and> linkPrecedence X = secondary
     \<and> resolvePrimaryContact rows now M = Inr (rows1, set_link now primary None X)
     \<and> set rows1 = (\<lambda>r. if cid r = cid X then set_link now primary None r else r) ` set rows"
proof -
  have "set (fetchPrimaryContacts rows (findAllPrimaryContactIds rows M)) = {}"
    using fetch_reachable[OF U M(1)] none by simp
  then have P: "fetchPrimaryContacts rows (findAllPrimaryContactIds rows M) = []" by simp
  have "sort_key createdAt M \<noteq> []" using M(2) by (metis length_0_conv length_sort)
  then obtain X cs where s: "sort_key createdAt M = X # cs"
    by (cases "sort_key createdAt M") auto
  then have X_M: "X \<in> set M" by (metis list.set_intros(1) set_sort)
  have notprim: "linkPrecedence X \<noteq> primary"
  proof
    assume "linkPrecedence X = primary"
    then have "X \<in> reachable_primaries rows M"
      unfolding reachable_primaries_def using X_M reaches_here[of rows X] by blast
    then show False using none by simp
  qed
  have X_rows: "X \<in> set rows" using X_M M(1) by blast
  obtain rows1 where upd: "update_contact rows now (cid X) primary None
        = Inr (rows1, set_link now primary None X)"
    and set1: "set rows1 = (\<lambda>r. if cid r = cid X then set_link now primary None r else r) ` set rows"
    using promote_inv[OF U X_rows notprim, of now] by blast
  have "resolvePrimaryContact rows now M = Inr (rows1, set_link now primary None X)"
    using P s notprim upd
    by (simp add: resolvePrimaryContact_def handleOrphanedSecondaries_def Let_def)
  then show ?thesis using X_M notprim not_primary set1 by blast
qed

lemma flat_facts:
  assumes U: "unique_ids rows" and I2: "inv_secondary_linked rows" and M: "set M \<subseteq> set rows"
  shows "\<And>m. m \<in> set M \<Longrightarrow> linkPrecedence m = primary \<Longrightarrow> m \<in> reachable_primaries rows M"
    and "\<And>m q. m \<in> set M \<Longrightarrow> linkPrecedence m = secondary \<Longrightarrow> linkedId m = Some (cid q)
           \<Longrightarrow> q \<in> set rows \<Longrightarrow> linkPrecedence q = primary \<Longrightarrow> cid q \<noteq> 0
           \<Longrightarrow> q \<in> reachable_primaries rows M"
    and "\<And>q. q \<in> reachable_primaries rows M \<Longrightarrow>
           q \<in> set M \<or> (\<exists>m\<in>set M. linkPrecedence m = secondary
                              \<and> linkedId m = Some (cid q) \<and> cid q \<noteq> 0)"
proof -
  show "m \<in> reachable_primaries rows M" if "m \<in> set M" "linkPrecedence m = primary" for m
    unfolding reachable_primaries_def using that reaches_here[of rows m] by blast
  show "q \<in> reachable_primaries rows M"
    if "m \<in> set M" "linkPrecedence m = secondary" "linkedId m = Some (cid q)"
      "q \<in> set rows" "linkPrecedence q = primary" "cid q \<noteq> 0" for m q
  proof -
    have "parent_of rows m = Some q" using parent_of_linked[OF U that(4,2,3,6)] .
    then have "reaches rows m q" using reaches_up[OF _ reaches_here] by blast
    then show ?thesis unfolding reachable_primaries_def using that(1,5) by blast
  qed
  show "q \<in> set M \<or> (\<exists>m\<in>set M. linkPrecedence m = secondary
                              \<and> linkedId m = Some (cid q) \<and> cid q \<noteq> 0)"
    if q: "q \<in> reachable_primaries rows M" for q
  proof -
    obtain m where m: "m \<in> set M" "reaches rows m q" and qp: "linkPrecedence q = primary"
      using q unfolding reachable_primaries_def by blast
    from m(2) show ?thesis
    proof (cases rule: reaches.cases)
      case reaches_here
      then show ?thesis using m(1) by simp
    next
      case (reaches_up d)
      have np: "linkPrecedence m = secondary" "truthy_num (linkedId m)"
        "findUnique rows (the (linkedId m)) = Some d"
        using reaches_up(1) by (auto simp: parent_of_def not_primary split: if_splits)
      have "m \<in> set rows" using m(1) M by blast
      then obtain q' where q': "q' \<in> set rows" "linkedId m = Some (cid q')" "linkPrecedence q' = primary"
        using I2 np(1) unfolding inv2_iff by blast
      have "findUnique rows (cid q') = Some q'" using findUnique_unique[OF U q'(1)] .
      then have "d = q'" using np(3) q'(2) by simp
      then have "reaches rows q' q" using reaches_up(2) by simp
      then have "q = q'" using reaches_no_parent[OF _ parent_of_primary[OF q'(3)]] by blast
      then have "linkedId m = Some (cid q)" "cid q \<noteq> 0" using q'(2) np(2) by auto
      then show ?thesis using m(1) np(1) by blast
    qed
  qed
qed

lemma resolve_settles:
  assumes U: "unique_ids rows" and I1: "inv_primary_unlinked rows" and I2: "inv_secondary_linked rows"
    and Mne: "findMatchingContacts rows em ph \<noteq> []"
    and res: "resolvePrimaryContact rows now (findMatchingContacts rows em ph) = Inr (rows1, p)"
  shows "settled rows1 p (findMatchingContacts rows1 em ph)"
proof -
  let ?M = "findMatchingContacts rows em ph"
  let ?RP = "reachable_primaries rows ?M"
  have M: "set ?M \<subseteq> set rows" by (rule findMatching_subset)
  note flat = flat_facts[OF U I2 M]
  have sec: "\<exists>q\<in>set rows. linkedId m = Some (cid q) \<and> linkPrecedence q = primary"
    if "m \<in> set rows" "linkPrecedence m = secondary" for m
    using I2 that unfolding inv2_iff by blast
  show ?thesis
  proof (cases "fetchPrimaryContacts rows (findAllPrimaryContactIds rows ?M)")
    case Nil
    have none: "?RP = {}" using fetch_reachable[OF U M] Nil by simp
    obtain X rows1' where X: "X \<in> set ?M" "linkPrecedence X = secondary"
      and r: "resolvePrimaryContact rows now ?M = Inr (rows1', set_link now primary None X)"
      and set1': "set rows1'
          = (\<lambda>r. if cid r = cid X then set_link now primary None r else r) ` set rows"
      using orphan_resolve[OF U M Mne none, of now] by blast
    let ?h = "\<lambda>r. if cid r = cid X then set_link now primary None r else r"
    have "Inr (rows1, p) = (Inr (rows1', set_link now primary None X)
                               :: error + Contact list \<times> Contact)"
      using res[symmetric] r by (rule trans)
    then have eqs: "rows1 = rows1'" "p = set_link now primary None X"
      by blast+
    have set1: "set rows1 = set (map ?h rows)" unfolding eqs(1) set1' by simp
    have X_rows: "X \<in> set rows" using X(1) M by blast
    have hX: "?h X = p" using eqs(2) by simp
    have "findMatchingContacts (map ?h rows) em ph = map ?h ?M"
      by (rule findMatching_map) (simp_all add: set_link_def)
    then have M1: "set (findMatchingContacts rows1 em ph) = set (map ?h ?M)"
      using findMatching_set_cong[OF set1, of em ph] by simp
    have sub1: "set (map ?h ?M) \<subseteq> set rows1"
      using findMatching_subset[of rows1 em ph] unfolding M1 .
    have p_rows1: "p \<in> set rows1"
    proof -
      have "?h X \<in> ?h ` set rows" using X_rows by (rule imageI)
      then show ?thesis unfolding set1 hX by simp
    qed
    have p_M1: "p \<in> set (map ?h ?M)"
    proof -
      have "?h X \<in> ?h ` set ?M" using X(1) by (rule imageI)
      then show ?thesis unfolding hX by simp
    qed
    have shape: "m' = p \<or> (linkPrecedence m' = secondary
                \<and> (linkedId m' = Some (cid p) \<or> linkedId m' = Some 0))"
      if "m' \<in> set (map ?h ?M)" for m'
    proof -
      have "m' \<in> ?h ` set ?M" using that unfolding set_map .
      then obtain m where m: "m \<in> set ?M" "m' = ?h m" by blast
      have m_rows: "m \<in> set rows" using m(1) M by blast
      show ?thesis
      proof (cases "cid m = cid X")
        case True
        then have "m = X" using unique_ids_eq[OF U m_rows X_rows] by simp
        then have "m' = p" using m(2) hX by simp
        then show ?thesis by blast
      next
        case False
        then have same: "m' = m" using m(2) by simp
        have "linkPrecedence m \<noteq> primary" using flat(1)[OF m(1)] none by auto
        then have s: "linkPrecedence m = secondary" using not_primary by blast
        obtain q where q: "q \<in> set rows" "linkedId m = Some (cid q)" "linkPrecedence q = primary"
          using sec[OF m_rows s] by blast
        have "cid q = 0"
        proof (rule ccontr)
          assume "cid q \<noteq> 0"
          then have "q \<in> ?RP" using flat(2)[OF m(1) s q(2) q(1) q(3)] by blast
          then show False using none by simp
        qed
        then have "linkedId m = Some 0" using q(2) by simp
        then show ?thesis using s same by simp
      qed
    qed
    have "linkPrecedence p = primary" unfolding eqs(2) by (simp add: set_link_def)
    then show ?thesis
      unfolding settled_def M1 using p_rows1 p_M1 shape sub1
      by (metis (no_types, lifting))
  next
    case (Cons S others)
    note fc = fetch_cons[OF U M Cons]
    let ?D = "?RP - {S}"
    let ?dem = "\<lambda>r. r \<in> ?D \<or> (\<exists>q\<in>?D. linkedId r = Some (cid q))"
    let ?g = "\<lambda>r. if ?dem r
                 then r\<lparr>linkedId := Some (cid S), linkPrecedence := secondary, updatedAt := now\<rparr>
                 else r"
    have r: "resolvePrimaryContact rows now ?M =
       Inr (if others \<noteq> [] then mergePrimaryContacts rows now (S # others) else rows, S)"
      using Cons by (simp add: resolvePrimaryContact_def Let_def)
    have "Inr (rows1, p) = (Inr (if others \<noteq> [] then mergePrimaryContacts rows now (S # others)
                                 else rows, S) :: error + Contact list \<times> Contact)"
      using res[symmetric] r by (rule trans)
    then have rows1_if: "rows1 = (if others \<noteq> [] then mergePrimaryContacts rows now (S # others)
                                 else rows)" and pS: "p = S"
      by blast+
    have RPsub: "?RP \<subseteq> set rows" using reachable_primaries_rows[OF M] .
    have S_rows: "S \<in> set rows" and S_prim: "linkPrecedence S = primary" using fc(3,4) by auto
    have S_unl: "linkedId S = None" using I1 S_rows S_prim unfolding inv1_iff by blast
    have rows1: "set rows1 = set (map ?g rows)"
    proof (cases "others = []")
      case True
      then have D: "?D = {}" using fc(1) by simp
      have "?g r = r" for r unfolding D by simp
      then have "map ?g rows = rows" by (simp only: map_ident[unfolded id_def])
      moreover have "rows1 = rows" using rows1_if True by simp
      ultimately show ?thesis by simp
    next
      case False
      have "rows1 = mergePrimaryContacts rows now (S # others)" using rows1_if False by simp
      then have "rows1 = write_rows rows ?dem
          (\<lambda>r. r\<lparr>linkedId := Some (cid S), linkPrecedence := secondary, updatedAt := now\<rparr>)"
        using merge_as_demotion[OF U fc(1), of now S] RPsub unfolding write_rows_def by blast
      then show ?thesis by (simp only: set_write_rows set_map)
    qed
    have gS: "?g S = S" using S_unl by simp
    have "findMatchingContacts (map ?g rows) em ph = map ?g ?M"
      by (rule findMatching_map) simp_all
    then have M1: "set (findMatchingContacts rows1 em ph) = set (map ?g ?M)"
      using findMatching_set_cong[OF rows1, of em ph] by simp
    have sub1: "set (map ?g ?M) \<subseteq> set rows1"
      using findMatching_subset[of rows1 em ph] unfolding M1 .
    have S_rows1: "S \<in> set rows1" unfolding rows1 using map_fixed_mem[of S rows ?g] S_rows gS by blast
    have shape: "m' = S \<or> (linkPrecedence m' = secondary
                \<and> (linkedId m' = Some (cid S) \<or> linkedId m' = Some 0))"
      if "m' \<in> set (map ?g ?M)" for m'
    proof -
      have "m' \<in> ?g ` set ?M" using that unfolding set_map .
      then obtain m where m: "m \<in> set ?M" "m' = ?g m" by blast
      have m_rows: "m \<in> set rows" using m(1) M by blast
      show ?thesis
      proof (cases "?dem m")
        case True
        have "m' = m\<lparr>linkedId := Some (cid S), linkPrecedence := secondary, updatedAt := now\<rparr>"
          unfolding m(2) by (rule if_P[OF True])
        then show ?thesis by simp
      next
        case False
        have same: "m' = m" unfolding m(2) by (rule if_not_P[OF False])
        show ?thesis
        proof (cases "linkPrecedence m = primary")
          case True
          then have "m \<in> ?RP" using flat(1)[OF m(1)] by blast
          then have "m = S" using False by blast
          then show ?thesis using same by simp
        next
          case np: False
          then have s: "linkPrecedence m = secondary" using not_primary by blast
          obtain q where q: "q \<in> set rows" "linkedId m = Some (cid q)" "linkPrecedence q = primary"
            using sec[OF m_rows s] by blast
          show ?thesis
          proof (cases "cid q = 0")
            case True
            then have "linkedId m = Some 0" using q(2) by simp
            then show ?thesis using s same by simp
          next
            case nz: False
            have "q \<in> ?RP" using flat(2)[OF m(1) s q(2) q(1) q(3) nz] .
            moreover have "q \<notin> ?D" using False q(2) by blast
            ultimately have "q = S" by blast
            then have "linkedId m = Some (cid S)" using q(2) by simp
            then show ?thesis using s same by simp
          qed
        qed
      qed
    qed
    have reach: "S \<in> set (map ?g ?M)
          \<or> (\<exists>m\<in>set (map ?g ?M). linkPrecedence m = secondary \<and> linkedId m = Some (cid S) \<and> cid S \<noteq> 0)"
    proof -
      have "S \<in> set ?M \<or> (\<exists>m\<in>set ?M. linkPrecedence m = secondary
                              \<and> linkedId m = Some (cid S) \<and> cid S \<noteq> 0)"
        using flat(3)[OF fc(2)] .
      then show ?thesis
      proof
        assume "S \<in> set ?M"
        then have "S \<in> set (map ?g ?M)" using map_fixed_mem[of S ?M ?g] gS by blast
        then show ?thesis by blast
      next
        assume "\<exists>m\<in>set ?M. linkPrecedence m = secondary \<and> linkedId m = Some (cid S) \<and> cid S \<noteq> 0"
        then obtain m where m: "m \<in> set ?M" "linkPrecedence m = secondary"
          "linkedId m = Some (cid S)" "cid S \<noteq> 0" by blast
        have m_rows: "m \<in> set rows" using m(1) M by blast
        have "m \<notin> ?RP" using m(2) unfolding reachable_primaries_def by auto
        moreover have "\<not> (\<exists>q\<in>?D. linkedId m = Some (cid q))"
        proof
          assume "\<exists>q\<in>?D. linkedId m = Some (cid q)"
          then obtain q where q: "q \<in> ?D" "linkedId m = Some (cid q)" by blast
          have "cid q = cid S" using q(2) m(3) by simp
          moreover have "q \<in> set rows" using q(1) RPsub by blast
          ultimately have "q = S" using unique_ids_eq[OF U _ S_rows] by blast
          then show False using q(1) by blast
        qed
        ultimately have nd: "\<not> ?dem m" by blast
        have "?g m = m" by (rule if_not_P[OF nd])
        then have "m \<in> set (map ?g ?M)" using map_fixed_mem[of m ?M ?g] m(1) by blast
        then show ?thesis using m(2,3,4) by blast
      qed
    qed
    show ?thesis
      unfolding settled_def M1 pS
      using S_rows1 S_prim shape reach sub1
      by (metis (no_types, lifting))
  qed
qed

lemma findMatching_append:
  "findMatchingContacts (rows @ xs) em ph
     = findMatchingContacts rows em ph @ findMatchingContacts xs em ph"
  by (simp add: findMatchingContacts_def findMany_OR_def)

lemma related_append:
  "getAllRelatedContacts (rows @ xs) i = getAllRelatedContacts rows i @ getAllRelatedContacts xs i"
  by (simp add: getAllRelatedContacts_def)

lemma settled_append:
  assumes S: "settled rows1 p (findMatchingContacts rows1 em ph)"
    and n: "\<forall>n\<in>set new. linkPrecedence n = secondary \<and> linkedId n = Some (cid p)"
  shows "settled (rows1 @ new) p (findMatchingContacts (rows1 @ new) em ph)"
proof -
  let ?M1 = "findMatchingContacts rows1 em ph"
  let ?N = "findMatchingContacts new em ph"
  have N: "set ?N \<subseteq> set new" by (rule findMatching_subset)
  have p: "p \<in> set rows1" "linkPrecedence p = primary" "set ?M1 \<subseteq> set rows1"
    using S unfolding settled_def by blast+
  have shape1: "m = p \<or> (linkPrecedence m = secondary
                \<and> (linkedId m = Some (cid p) \<or> linkedId m = Some 0))" if "m \<in> set ?M1" for m
    using S that unfolding settled_def by blast
  have reach1: "p \<in> set ?M1
          \<or> (\<exists>m\<in>set ?M1. linkPrecedence m = secondary \<and> linkedId m = Some (cid p) \<and> cid p \<noteq> 0)"
    using S unfolding settled_def by blast
  have shape: "m = p \<or> (linkPrecedence m = secondary
                \<and> (linkedId m = Some (cid p) \<or> linkedId m = Some 0))" if "m \<in> set (?M1 @ ?N)" for m
  proof (cases "m \<in> set ?M1")
    case True
    then show ?thesis using shape1 by blast
  next
    case False
    then have "m \<in> set new" using that N by auto
    then show ?thesis using n by blast
  qed
  have reach: "p \<in> set (?M1 @ ?N)
          \<or> (\<exists>m\<in>set (?M1 @ ?N). linkPrecedence m = secondary \<and> linkedId m = Some (cid p) \<and> cid p \<noteq> 0)"
    using reach1 by auto
  have sub: "set (?M1 @ ?N) \<subseteq> set (rows1 @ new)" using p(3) N by auto
  have p_in: "p \<in> set (rows1 @ new)" using p(1) by simp
  show ?thesis
    unfolding settled_def findMatching_append
    using p_in p(2) sub shape reach by (metis (no_types, lifting))
qed

lemma settled_nonempty: "settled rows p M \<Longrightarrow> M \<noteq> []"
  unfolding settled_def by auto

lemma no_novelty_after:
  "\<not> shouldCreateSecondaryContact (cluster @ [new_secondary rows1 now em ph i]) em ph"
proof -
  have "email (new_secondary rows1 now em ph i) = em"
    "phoneNumber (new_secondary rows1 now em ph i) = ph"
    by (simp_all add: new_secondary_def)
  then have "em \<in> email ` set (cluster @ [new_secondary rows1 now em ph i])"
    "ph \<in> phoneNumber ` set (cluster @ [new_secondary rows1 now em ph i])"
    by (metis image_eqI in_set_conv_decomp)+
  then show ?thesis unfolding should_create_iff by blast
qed

lemma identify_twice:
  assumes U: "unique_ids rows" and I1: "inv_primary_unlinked rows" and I2: "inv_secondary_linked rows"
    and Mne: "findMatchingContacts rows em ph \<noteq> []"
  shows "identify (fst (identify rows now em ph)) now' em ph = identify rows now em ph"
proof -
  obtain rows1 p where res: "resolvePrimaryContact rows now (findMatchingContacts rows em ph) = Inr (rows1, p)"
    and U1: "unique_ids rows1"
    using resolve_inv[OF U I1 I2 Mne findMatching_subset, of now] by blast
  have S1: "settled rows1 p (findMatchingContacts rows1 em ph)"
    using resolve_settles[OF U I1 I2 Mne res] .
  let ?rel = "getAllRelatedContacts rows1 (cid p)"
  let ?new = "if shouldCreateSecondaryContact ?rel em ph
              then [new_secondary rows1 now em ph (cid p)] else []"
  have idn: "identify rows now em ph = (rows1 @ ?new, buildResponseFromContacts (?rel @ ?new))"
    using identify_matched[OF Mne res] by (simp add: Let_def)
  have new_props: "\<forall>n\<in>set ?new. linkPrecedence n = secondary \<and> linkedId n = Some (cid p)"
    "\<forall>n\<in>set ?new. cid n = next_id rows1"
    by (simp_all add: new_secondary_def)
  have U2: "unique_ids (rows1 @ ?new)"
  proof (cases "shouldCreateSecondaryContact ?rel em ph")
    case True
    then show ?thesis using unique_ids_append[OF U1, of "new_secondary rows1 now em ph (cid p)"]
      by (simp add: new_secondary_def)
  next
    case False
    then show ?thesis using U1 by simp
  qed
  have S2: "settled (rows1 @ ?new) p (findMatchingContacts (rows1 @ ?new) em ph)"
    using settled_append[OF S1 new_props(1)] .
  have M2ne: "findMatchingContacts (rows1 @ ?new) em ph \<noteq> []" using settled_nonempty[OF S2] .
  have res2: "resolvePrimaryContact (rows1 @ ?new) now' (findMatchingContacts (rows1 @ ?new) em ph)
                = Inr (rows1 @ ?new, p)"
    using resolve_fixed[OF U2 S2] .
  have rel2: "getAllRelatedContacts (rows1 @ ?new) (cid p) = ?rel @ ?new"
    unfolding related_append by (simp add: getAllRelatedContacts_def new_secondary_def)
  have known: "\<not> shouldCreateSecondaryContact (?rel @ ?new) em ph"
  proof (cases "shouldCreateSecondaryContact ?rel em ph")
    case True
    then show ?thesis using no_novelty_after[of ?rel rows1 now em ph "cid p"] by simp
  next
    case False
    then show ?thesis by simp
  qed
  have "identify (rows1 @ ?new) now' em ph = (rows1 @ ?new, buildResponseFromContacts (?rel @ ?new))"
    using identify_matched[OF M2ne res2] known unfolding rel2 by (simp add: Let_def)
  then show ?thesis unfolding idn by simp
qed

text \<open>
  C6. On a table with unique ids that satisfies invariants 1 and 2, let the pair (email,
  phone) match a stored contact and carry nothing new for the resolved cluster (the
  novelty test on that cluster is negative). Then the first call creates no contact and
  returns a view, and a second call with the same pair, at any later time, leaves the table
  exactly as the first call left it and returns the same view.
\<close>

theorem C6_second_call_idempotent:
  assumes U: "unique_ids rows" and I1: "inv_primary_unlinked rows" and I2: "inv_secondary_linked rows"
    and Mne: "findMatchingContacts rows em ph \<noteq> []"
    and res: "resolvePrimaryContact rows now (findMatchingContacts rows em ph) = Inr (rows1, p)"
    and known: "\<not> shouldCreateSecondaryContact (getAllRelatedContacts rows1 (cid p)) em ph"
  shows "fst (identify rows now em ph) = rows1 \<and> length rows1 = length rows
    \<and> (\<exists>r. snd (identify rows now em ph) = Inr r)
    \<and> fst (identify (fst (identify rows now em ph)) now' em ph) = fst (identify rows now em ph)
    \<and> snd (identify (fst (identify rows now em ph)) now' em ph) = snd (identify rows now em ph)"
proof -
  have idn: "identify rows now em ph
      = (rows1, buildResponseFromContacts (getAllRelatedContacts rows1 (cid p)))"
    using identify_matched[OF Mne res] known by (simp add: Let_def)
  obtain rows1' p' where r': "resolvePrimaryContact rows now (findMatchingContacts rows em ph) = Inr (rows1', p')"
    and len': "length rows1' = length rows"
    using resolve_ok[OF Mne findMatching_subset, of now] by blast
  have "Inr (rows1, p) = (Inr (rows1', p') :: error + Contact list \<times> Contact)"
    using res[symmetric] r' by (rule trans)
  then have "rows1 = rows1'" by blast
  then have len: "length rows1 = length rows" using len' by simp
  have S1: "settled rows1 p (findMatchingContacts rows1 em ph)"
    using resolve_settles[OF U I1 I2 Mne res] .
  then have "p \<in> set rows1" unfolding settled_def by blast
  then have "p \<in> set (getAllRelatedContacts rows1 (cid p))" by (simp add: getAllRelatedContacts_def)
  then have "getAllRelatedContacts rows1 (cid p) \<noteq> []" by (metis empty_iff empty_set)
  then obtain r where "buildResponseFromContacts (getAllRelatedContacts rows1 (cid p)) = Inr r"
    using build_nonempty by blast
  then have resp: "\<exists>r. snd (identify rows now em ph) = Inr r" unfolding idn by simp
  have twice: "identify (fst (identify rows now em ph)) now' em ph = identify rows now em ph"
    using identify_twice[OF U I1 I2 Mne] .
  show ?thesis using idn len resp twice by simp
qed

theorem C6_second_call_idempotent_witness:
  "unique_ids mock_contacts \<and> inv_primary_unlinked mock_contacts
   \<and> inv_secondary_linked mock_contacts
   \<and> findMatchingContacts mock_contacts (Some ''emmett.brown@flux.com'') (Some ''555-0001'') \<noteq> []
   \<and> resolvePrimaryContact mock_contacts 100
         (findMatchingContacts mock_contacts (Some ''emmett.brown@flux.com'') (Some ''555-0001''))
       = Inr (mock_contacts, mkContact 1 (Some ''emmett.brown@flux.com'') (Some ''555-0001'') None primary 1)
   \<and> \<not> shouldCreateSecondaryContact (getAllRelatedContacts mock_contacts 1)
         (Some ''emmett.brown@flux.com'') (Some ''555-0001'')
   \<and> identify (fst (identify mock_contacts 100 (Some ''emmett.brown@flux.com'') (Some ''555-0001'')))
         200 (Some ''emmett.brown@flux.com'') (Some ''555-0001'')
       = (mock_contacts,
          Inr \<lparr>primaryContactId = 1,
               emails = [''emmett.brown@flux.com'', ''doc.brown@timemachine.com''],
               phoneNumbers = [''555-0001'', ''555-0002''], secondaryContactIds = [2, 3]\<rparr>)"
proof -
  let ?e = "Some ''emmett.brown@flux.com''"
  let ?p = "Some ''555-0001''"
  let ?c1 = "mkContact 1 (Some ''emmett.brown@flux.com'') (Some ''555-0001'') None primary 1"
  have U: "unique_ids mock_contacts" by code_simp
  have I1: "inv_primary_unlinked mock_contacts" by code_simp
  have I2: "inv_secondary_linked mock_contacts" by code_simp
  have Mne: "findMatchingContacts mock_contacts ?e ?p \<noteq> []" by code_simp
  have res: "resolvePrimaryContact mock_contacts 100 (findMatchingContacts mock_contacts ?e ?p)
               = Inr (mock_contacts, ?c1)" by code_simp
  have id1: "cid ?c1 = 1" by (simp add: mkContact_def)
  have known: "\<not> shouldCreateSecondaryContact (getAllRelatedContacts mock_contacts 1) ?e ?p"
    by code_simp
  have known': "\<not> shouldCreateSecondaryContact (getAllRelatedContacts mock_contacts (cid ?c1)) ?e ?p"
    unfolding id1 by (rule known)
  have first: "identify mock_contacts 100 ?e ?p
       = (mock_contacts,
          Inr \<lparr>primaryContactId = 1,
               emails = [''emmett.brown@flux.com'', ''doc.brown@timemachine.com''],
               phoneNumbers = [''555-0001'', ''555-0002''], secondaryContactIds = [2, 3]\<rparr>)"
    by code_simp
  have "fst (identify (fst (identify mock_contacts 100 ?e ?p)) 200 ?e ?p)
          = fst (identify mock_contacts 100 ?e ?p)
      \<and> snd (identify (fst (identify mock_contacts 100 ?e ?p)) 200 ?e ?p)
          = snd (identify mock_contacts 100 ?e ?p)"
    using C6_second_call_idempotent[OF U I1 I2 Mne res known', of 200] by blast
  then have "identify (fst (identify mock_contacts 100 ?e ?p)) 200 ?e ?p
               = identify mock_contacts 100 ?e ?p"
    by (simp add: prod_eq_iff)
  then show ?thesis using U I1 I2 Mne res known first by simp
qed

section \<open>Creation of a secondary contact\<close>

text \<open>
  C5 as the claim states it fails for the empty string: the phone number matches contact 1,
  the email \<open>""\<close> is not null and is not among the cluster's emails, and no contact is
  created.
\<close>

theorem C5_empty_email_counterexample:
  "fst (identify [mkContact 1 (Some ''a@x.com'') (Some ''111'') None primary 1] 100
          (Some []) (Some ''111''))
     = [mkContact 1 (Some ''a@x.com'') (Some ''111'') None primary 1]
   \<and> Some [] \<notin> set (map email [mkContact 1 (Some ''a@x.com'') (Some ''111'') None primary 1])"
  by code_simp

text \<open>
  C5, amended. When the request matches a stored contact, identify appends exactly one
  contact, secondary and linked to the resolved primary's id, if and only if the given
  email is neither null nor empty and absent from the emails of the resolved cluster, or
  the given phone number is neither null nor empty and absent from the cluster's phone
  numbers; otherwise it appends nothing. The decision, shouldCreateSecondaryContact, is a
  function of the cluster and the two inputs alone.
\<close>

theorem C5_secondary_created_iff:
  assumes "findMatchingContacts rows em ph \<noteq> []"
  shows "\<exists>rows1 p. resolvePrimaryContact rows now (findMatchingContacts rows em ph) = Inr (rows1, p)
      \<and> length rows1 = length rows
      \<and> fst (identify rows now em ph) =
          (if (\<exists>e. em = Some e \<and> e \<noteq> [] \<and> Some e \<notin> email ` set (getAllRelatedContacts rows1 (cid p)))
            \<or> (\<exists>n. ph = Some n \<and> n \<noteq> [] \<and> Some n \<notin> phoneNumber ` set (getAllRelatedContacts rows1 (cid p)))
           then rows1 @ [\<lparr>cid = next_id rows1, phoneNumber = ph, email = em, linkedId = Some (cid p),
                  linkPrecedence = secondary, createdAt = now, updatedAt = now, deletedAt = None\<rparr>]
           else rows1)
      \<and> (\<forall>cluster. shouldCreateSecondaryContact cluster em ph =
           ((\<exists>e. em = Some e \<and> e \<noteq> [] \<and> Some e \<notin> email ` set cluster)
             \<or> (\<exists>n. ph = Some n \<and> n \<noteq> [] \<and> Some n \<notin> phoneNumber ` set cluster)))"
proof -
  obtain rows1 p where r: "resolvePrimaryContact rows now (findMatchingContacts rows em ph) = Inr (rows1, p)"
    "length rows1 = length rows"
    using resolve_ok[OF assms findMatching_subset] by blast
  have len: "length rows1 = length rows" using r(2) .
  have "fst (identify rows now em ph) =
      (if shouldCreateSecondaryContact (getAllRelatedContacts rows1 (cid p)) em ph
       then rows1 @ [\<lparr>cid = next_id rows1, phoneNumber = ph, email = em, linkedId = Some (cid p),
                  linkPrecedence = secondary, createdAt = now, updatedAt = now, deletedAt = None\<rparr>]
       else rows1)"
    using assms r(1)
    by (simp add: identify_def Let_def createSecondaryContact_def create_contact_def)
  then show ?thesis using r(1) len should_create_iff by (intro exI[of _ rows1] exI[of _ p]) simp
qed

theorem C5_secondary_created_iff_witness:
  "findMatchingContacts [mkContact 1 (Some ''a@x.com'') (Some ''111'') None primary 1]
      (Some ''b@x.com'') (Some ''111'') \<noteq> []
   \<and> fst (identify [mkContact 1 (Some ''a@x.com'') (Some ''111'') None primary 1] 100
          (Some ''b@x.com'') (Some ''111''))
     = [mkContact 1 (Some ''a@x.com'') (Some ''111'') None primary 1,
        mkContact 2 (Some ''b@x.com'') (Some ''111'') (Some 1) secondary 100]"
proof -
  let ?c = "mkContact 1 (Some ''a@x.com'') (Some ''111'') None primary 1"
  let ?rows = "[?c]"
  let ?P = "\<lambda>rows1 p.
        (\<exists>e. Some ''b@x.com'' = Some e \<and> e \<noteq> []
              \<and> Some e \<notin> email ` set (getAllRelatedContacts rows1 (cid p)))
      \<or> (\<exists>n. Some ''111'' = Some n \<and> n \<noteq> []
              \<and> Some n \<notin> phoneNumber ` set (getAllRelatedContacts rows1 (cid p)))"
  have ne: "findMatchingContacts ?rows (Some ''b@x.com'') (Some ''111'') \<noteq> []"
    by code_simp
  have res: "resolvePrimaryContact ?rows 100
               (findMatchingContacts ?rows (Some ''b@x.com'') (Some ''111'')) = Inr (?rows, ?c)"
    by code_simp
  obtain rows1 p where
    r: "resolvePrimaryContact ?rows 100
          (findMatchingContacts ?rows (Some ''b@x.com'') (Some ''111'')) = Inr (rows1, p)"
    and st: "fst (identify ?rows 100 (Some ''b@x.com'') (Some ''111'')) =
          (if ?P rows1 p
           then rows1 @ [\<lparr>cid = next_id rows1, phoneNumber = Some ''111'', email = Some ''b@x.com'',
                  linkedId = Some (cid p), linkPrecedence = secondary, createdAt = 100,
                  updatedAt = 100, deletedAt = None\<rparr>]
           else rows1)"
    using C5_secondary_created_iff[OF ne, of 100] by blast
  have "Inr (rows1, p) = (Inr (?rows, ?c) :: error + Contact list \<times> Contact)"
    using r res by (rule trans[OF sym])
  then have eq: "rows1 = ?rows" "p = ?c" by auto
  have new: "?P ?rows ?c"
    by (simp add: getAllRelatedContacts_def mkContact_def)
  have "next_id ?rows = 2" by code_simp
  then have "fst (identify ?rows 100 (Some ''b@x.com'') (Some ''111'')) =
      ?rows @ [mkContact 2 (Some ''b@x.com'') (Some ''111'') (Some 1) secondary 100]"
    using st new unfolding eq by (simp add: mkContact_def)
  with ne show ?thesis by simp
qed

end
